theory Spec2Isabelle
  imports Complex_Main "HOL-Library.Word"
begin

unbundle bit_operations_syntax

section \<open>Common types\<close>

text \<open>
  The platform is taken to be LP64: \<open>size_t\<close> and every pointer are 64 bits wide.
  Arithmetic on \<open>size_t\<close> wraps around (it is unsigned); the statistics counters of
  both classes are \<open>size_t\<close> fields and are modelled as such.
\<close>

type_synonym size_t = "64 word"

text \<open>
  Member names are the source's without the trailing underscore (\<open>cache_list_\<close> is
  \<open>cache_list\<close>), which Isabelle does not accept in a name.
\<close>

datatype error = InvalidArgument | BadAlloc

section \<open>lru\_cache.hpp: class LRUCache\<close>

text \<open>
  \<open>cache_list\<close> is a \<open>std::list<std::pair<Key, Value>>\<close>, most recently used entry
  first. A list iterator designates one node of the list and stays valid while the node
  is moved by \<open>splice\<close>; it is modelled as the identity of the node (\<open>node_ref\<close>),
  and every node carries its identity next to its pair. \<open>cache_map\<close> is the
  \<open>std::unordered_map<Key, ListIterator>\<close>. The field \<open>next_node\<close> is not in the
  source: it stands for the allocator of list nodes and gives \<open>emplace_front\<close> a node
  identity that no earlier node had.
\<close>

type_synonym node_ref = nat

type_synonym ('k, 'v) cache_node = "node_ref \<times> 'k \<times> 'v"

record ('k, 'v) lru_cache =
  capacity :: size_t
  cache_list :: "('k, 'v) cache_node list"
  cache_map :: "'k \<rightharpoonup> node_ref"
  hits :: size_t
  misses :: size_t
  evictions :: size_t
  next_node :: node_ref

text \<open>The constructor throws \<open>std::invalid_argument\<close> when the capacity is zero.\<close>

definition LRUCache :: "size_t \<Rightarrow> error + ('k, 'v) lru_cache" where
  "LRUCache cap =
     (if cap = 0 then Inl InvalidArgument
      else Inr \<lparr>capacity = cap, cache_list = [], cache_map = Map.empty,
                hits = 0, misses = 0, evictions = 0, next_node = 0\<rparr>)"

text \<open>
  Dereferencing an iterator: the node of the list with that identity. An iterator whose
  node is no longer in the list is dangling; using it is undefined behaviour in the
  source. The model then finds no node, \<open>splice_front\<close> and \<open>assign_value\<close> leave the
  list as it is, and \<open>lru_inv\<close> below shows that the map never holds such an
  iterator.
\<close>

definition deref :: "node_ref \<Rightarrow> ('k, 'v) cache_node list \<Rightarrow> ('k, 'v) cache_node option" where
  "deref it xs = find (\<lambda>n. fst n = it) xs"

text \<open>\<open>cache_list.splice(cache_list.begin(), cache_list, it)\<close>\<close>

definition splice_front :: "node_ref \<Rightarrow> ('k, 'v) cache_node list \<Rightarrow> ('k, 'v) cache_node list" where
  "splice_front it xs =
     (case deref it xs of None \<Rightarrow> xs | Some n \<Rightarrow> n # remove1 n xs)"

text \<open>\<open>it->second = value\<close> on the node that \<open>it\<close> designates\<close>

definition assign_value :: "node_ref \<Rightarrow> 'v \<Rightarrow> ('k, 'v) cache_node list \<Rightarrow> ('k, 'v) cache_node list" where
  "assign_value it v xs = map (\<lambda>n. if fst n = it then (fst n, fst (snd n), v) else n) xs"

definition cache_size :: "('k, 'v) lru_cache \<Rightarrow> nat" where
  "cache_size c = length (cache_list c)"

definition cache_capacity :: "('k, 'v) lru_cache \<Rightarrow> size_t" where
  "cache_capacity c = capacity c"

definition get :: "('k, 'v) lru_cache \<Rightarrow> 'k \<Rightarrow> 'v option \<times> ('k, 'v) lru_cache" where
  "get c key =
     (case cache_map c key of
        None \<Rightarrow> (None, c\<lparr>misses := misses c + 1\<rparr>)
      | Some it \<Rightarrow>
          (let c1 = c\<lparr>hits := hits c + 1\<rparr>;
               c2 = c1\<lparr>cache_list := splice_front it (cache_list c1)\<rparr>
           in (map_option (\<lambda>n. snd (snd n)) (deref it (cache_list c2)), c2)))"

definition evict_lru :: "('k, 'v) lru_cache \<Rightarrow> ('k, 'v) lru_cache" where
  "evict_lru c =
     (if cache_list c = [] then c
      else
        (let key = fst (snd (last (cache_list c)))
         in c\<lparr>cache_map := (cache_map c)(key := None),
               cache_list := butlast (cache_list c),
               evictions := evictions c + 1\<rparr>))"

definition put :: "('k, 'v) lru_cache \<Rightarrow> 'k \<Rightarrow> 'v \<Rightarrow> ('k, 'v) lru_cache" where
  "put c key val =
     (case cache_map c key of
        Some it \<Rightarrow>
          c\<lparr>cache_list := splice_front it (assign_value it val (cache_list c))\<rparr>
      | None \<Rightarrow>
          (let c1 = (if unat (capacity c) \<le> length (cache_list c) then evict_lru c else c);
               it = next_node c1
           in c1\<lparr>cache_list := (it, key, val) # cache_list c1,
                  cache_map := (cache_map c1)(key \<mapsto> it),
                  next_node := Suc it\<rparr>))"

definition clear :: "('k, 'v) lru_cache \<Rightarrow> ('k, 'v) lru_cache" where
  "clear c = c\<lparr>cache_list := [], cache_map := Map.empty\<rparr>"

definition reset_stats :: "('k, 'v) lru_cache \<Rightarrow> ('k, 'v) lru_cache" where
  "reset_stats c = c\<lparr>hits := 0, misses := 0, evictions := 0\<rparr>"


text \<open>The contents of the cache as the source prints them: the pairs, most recent first.\<close>

definition entries :: "('k, 'v) lru_cache \<Rightarrow> ('k \<times> 'v) list" where
  "entries c = map snd (cache_list c)"

text \<open>A run of \<open>put\<close> calls, first call first.\<close>

fun put_all :: "('k, 'v) lru_cache \<Rightarrow> ('k \<times> 'v) list \<Rightarrow> ('k, 'v) lru_cache" where
  "put_all c [] = c"
| "put_all c ((k, v) # kvs) = put_all (put c k v) kvs"

text \<open>
  The representation invariant of the class: node identities and keys occur once in the
  list, the map holds exactly the keys of the list, each with the iterator of its node,
  every node identity in use is older than \<open>next_node\<close>, the capacity is not zero
  and the list is not longer than the capacity.
\<close>

definition index_of :: "('k, 'v) cache_node list \<Rightarrow> 'k \<rightharpoonup> node_ref" where
  "index_of xs = map_of (map (\<lambda>n. (fst (snd n), fst n)) xs)"

definition lru_inv :: "('k, 'v) lru_cache \<Rightarrow> bool" where
  "lru_inv c \<longleftrightarrow>
     distinct (map fst (cache_list c)) \<and>
     distinct (map (\<lambda>n. fst (snd n)) (cache_list c)) \<and>
     cache_map c = index_of (cache_list c) \<and>
     list_all (\<lambda>n. fst n < next_node c) (cache_list c) \<and>
     capacity c \<noteq> 0 \<and>
     length (cache_list c) \<le> unat (capacity c)"

section \<open>memory\_pool.hpp: class MemoryPool\<close>

text \<open>
  A pointer is a 64-bit address, \<open>nullptr\<close> is address 0, and the memory is an array
  of bytes. \<open>struct FreeBlock { FreeBlock* next; }\<close> is one pointer at offset 0, so
  \<open>sizeof(FreeBlock)\<close> is 8; reading and writing \<open>block->next\<close> reads and writes
  the 8 bytes from the address of the block on, least significant byte first.
\<close>

type_synonym addr = "64 word"

type_synonym memory = "addr \<Rightarrow> 8 word"

definition sizeof_FreeBlock :: size_t where
  "sizeof_FreeBlock = 8"

definition load_next :: "memory \<Rightarrow> addr \<Rightarrow> addr" where
  "load_next m a = word_of_int (horner_sum uint (2 ^ 8) (map (\<lambda>i. m (a + of_nat i)) [0..<8]))"

definition store_next :: "memory \<Rightarrow> addr \<Rightarrow> addr \<Rightarrow> memory" where
  "store_next m a v =
     (\<lambda>x. if x - a < 8 then ucast (drop_bit (8 * unat (x - a)) v) else m x)"

text \<open>
  The fields of the class, and the memory, which the free list lives in. What the source
  writes to \<open>std::cerr\<close> is returned as a list of diagnostics.
\<close>

record memory_pool =
  memory_start :: addr
  block_size :: size_t
  block_count :: size_t
  free_list :: addr
  allocations :: size_t
  deallocations :: size_t
  current_usage :: size_t
  heap :: memory

datatype diagnostic = PoolExhausted | NotFromPool

text \<open>
  The loop of \<open>init_free_list\<close>, with its counter \<open>i\<close> and its cursor
  \<open>current\<close>: it links the blocks from the last one down to the first.
\<close>

function init_free_list_loop :: "memory_pool \<Rightarrow> size_t \<Rightarrow> addr \<Rightarrow> memory_pool" where
  "init_free_list_loop p i current =
     (if i < block_count p
      then init_free_list_loop
             (p\<lparr>heap := store_next (heap p) current (free_list p), free_list := current\<rparr>)
             (i + 1) (current - block_size p)
      else p)"
  by pat_completeness auto
termination
proof (relation "measure (\<lambda>(p, i, current). unat (block_count p) - unat i)")
  show "wf (measure (\<lambda>(p, i, current). unat (block_count p) - unat i))"
    by simp
next
  fix p :: memory_pool and i current :: "64 word"
  assume "i < block_count p"
  then have "unat i < unat (block_count p)" and "unat (i + 1) = Suc (unat i)"
    by unat_arith+
  then show "((p\<lparr>heap := store_next (heap p) current (free_list p), free_list := current\<rparr>,
               i + 1, current - block_size p), (p, i, current))
             \<in> measure (\<lambda>(p, i, current). unat (block_count p) - unat i)"
    by simp
qed

definition init_free_list :: "memory_pool \<Rightarrow> memory_pool" where
  "init_free_list p =
     init_free_list_loop (p\<lparr>free_list := 0\<rparr>) 0
       (memory_start p + (block_count p - 1) * block_size p)"

text \<open>
  The constructor. \<open>::operator new\<close> is the environment's: \<open>operator_new n\<close> is the
  address it returns for a request of \<open>n\<close> bytes, or \<open>None\<close> when it throws
  \<open>std::bad_alloc\<close>; \<open>h0\<close> is the memory as the constructor finds it.
  The memory of the model is total, so every store of \<open>init_free_list\<close> succeeds.
  In the source a store outside the reservation is undefined behaviour (the process
  faults); it can happen only when the product \<open>block_size * block_count\<close> wraps
  around, the reservation being then shorter than the blocks. The model says what the
  constructor does only for an arena that holds all its blocks, which is \<open>arena_ok\<close>
  below, or when there is no block.
\<close>

definition MemoryPool ::
  "size_t \<Rightarrow> size_t \<Rightarrow> (size_t \<Rightarrow> addr option) \<Rightarrow> memory \<Rightarrow> error + memory_pool" where
  "MemoryPool bsize bcount operator_new h0 =
     (let bs = (if bsize < sizeof_FreeBlock then sizeof_FreeBlock else bsize);
          total_size = bs * bcount
      in case operator_new total_size of
           None \<Rightarrow> Inl BadAlloc
         | Some start \<Rightarrow>
             if start = 0 then Inl BadAlloc
             else Inr (init_free_list
                    \<lparr>memory_start = start, block_size = bs, block_count = bcount,
                     free_list = 0, allocations = 0, deallocations = 0,
                     current_usage = 0, heap = h0\<rparr>))"

definition allocate :: "memory_pool \<Rightarrow> addr \<times> diagnostic list \<times> memory_pool" where
  "allocate p =
     (if free_list p = 0 then (0, [PoolExhausted], p)
      else
        (let block = free_list p
         in (block, [],
             p\<lparr>free_list := load_next (heap p) block,
               allocations := allocations p + 1,
               current_usage := current_usage p + 1\<rparr>)))"

definition is_from_pool :: "memory_pool \<Rightarrow> addr \<Rightarrow> bool" where
  "is_from_pool p ptr =
     (let start = memory_start p;
          end = start + block_size p * block_count p
      in start \<le> ptr \<and> ptr < end)"

definition deallocate :: "memory_pool \<Rightarrow> addr \<Rightarrow> diagnostic list \<times> memory_pool" where
  "deallocate p ptr =
     (if ptr = 0 then ([], p)
      else if \<not> is_from_pool p ptr then ([NotFromPool], p)
      else ([],
            p\<lparr>heap := store_next (heap p) ptr (free_list p),
              free_list := ptr,
              deallocations := deallocations p + 1,
              current_usage := current_usage p - 1\<rparr>))"

definition pool_current_usage :: "memory_pool \<Rightarrow> size_t" where
  "pool_current_usage p = current_usage p"

definition pool_capacity :: "memory_pool \<Rightarrow> size_t" where
  "pool_capacity p = block_count p"

text \<open>
  The address of block \<open>i\<close> of the arena, and the block addresses in arena order.
\<close>

definition block_addr :: "memory_pool \<Rightarrow> nat \<Rightarrow> addr" where
  "block_addr p i = memory_start p + of_nat i * block_size p"

definition block_addrs :: "memory_pool \<Rightarrow> addr list" where
  "block_addrs p = map (block_addr p) [0..<unat (block_count p)]"

text \<open>
  What a successful \<open>::operator new\<close> guarantees about the arena it returns: it does
  not start at the null address, and its \<open>block_size * block_count\<close> bytes lie in the
  address space, so that neither the product nor the one-past-the-end pointer
  \<open>start + block_size * block_count\<close> wraps around. The constructor has made the
  block size at least \<open>sizeof(FreeBlock)\<close>.
\<close>

definition arena_ok :: "memory_pool \<Rightarrow> bool" where
  "arena_ok p \<longleftrightarrow>
     memory_start p \<noteq> 0 \<and> sizeof_FreeBlock \<le> block_size p \<and>
     unat (memory_start p) + unat (block_size p) * unat (block_count p) < 2 ^ 64"

text \<open>
  The free list as a list of addresses: \<open>is_chain m a xs\<close> holds when following the
  \<open>next\<close> pointers from \<open>a\<close> visits exactly \<open>xs\<close> and ends at \<open>nullptr\<close>.
\<close>

fun is_chain :: "memory \<Rightarrow> addr \<Rightarrow> addr list \<Rightarrow> bool" where
  "is_chain m a [] \<longleftrightarrow> a = 0"
| "is_chain m a (x # xs) \<longleftrightarrow> a = x \<and> a \<noteq> 0 \<and> is_chain m (load_next m a) xs"

text \<open>
  Two addresses whose \<open>next\<close> fields (8 bytes each) do not overlap.
\<close>

definition apart :: "addr \<Rightarrow> addr \<Rightarrow> bool" where
  "apart a b \<longleftrightarrow> 8 \<le> b - a \<and> 8 \<le> a - b"

text \<open>
  The partition invariant of the data model: the addresses on the free list and the
  addresses held by callers (\<open>out\<close>) are disjoint and together are exactly the block
  addresses of the arena, and the free list has no repetition.
\<close>

definition free_list_partition :: "memory_pool \<Rightarrow> addr set \<Rightarrow> bool" where
  "free_list_partition p out \<longleftrightarrow>
     (\<exists>fl. is_chain (heap p) (free_list p) fl \<and> distinct fl \<and>
           set fl \<inter> out = {} \<and> set fl \<union> out = set (block_addrs p))"

definition pool_inv :: "memory_pool \<Rightarrow> addr list \<Rightarrow> bool" where
  "pool_inv p out \<longleftrightarrow>
     arena_ok p \<and> distinct out \<and> unat (current_usage p) = length out \<and>
     free_list_partition p (set out)"

text \<open>
  Sequences of calls. A state of a run is the pool together with the addresses the
  callers hold: those that \<open>allocate\<close> returned and \<open>deallocate\<close> has not taken
  back. \<open>op_ok\<close> is the obligation the class leaves to its callers: an address given
  to \<open>deallocate\<close> is one the caller holds (or one that \<open>deallocate\<close> rejects).
\<close>

datatype pool_op = Allocate | Deallocate addr

fun pool_step :: "memory_pool \<times> addr list \<Rightarrow> pool_op \<Rightarrow> memory_pool \<times> addr list" where
  "pool_step (p, out) Allocate =
     (case allocate p of (r, d, p') \<Rightarrow> (p', if r = 0 then out else r # out))"
| "pool_step (p, out) (Deallocate a) =
     (snd (deallocate p a), if a \<noteq> 0 \<and> is_from_pool p a then remove1 a out else out)"

fun run_pool :: "memory_pool \<times> addr list \<Rightarrow> pool_op list \<Rightarrow> memory_pool \<times> addr list" where
  "run_pool s [] = s"
| "run_pool s (x # xs) = run_pool (pool_step s x) xs"

fun op_ok :: "memory_pool \<times> addr list \<Rightarrow> pool_op \<Rightarrow> bool" where
  "op_ok (p, out) Allocate \<longleftrightarrow> True"
| "op_ok (p, out) (Deallocate a) \<longleftrightarrow> a \<in> set out \<or> a = 0 \<or> \<not> is_from_pool p a"

fun disciplined :: "memory_pool \<times> addr list \<Rightarrow> pool_op list \<Rightarrow> bool" where
  "disciplined s [] \<longleftrightarrow> True"
| "disciplined s (x # xs) \<longleftrightarrow> op_ok s x \<and> disciplined (pool_step s x) xs"

text \<open>\<open>n\<close> successive calls of \<open>allocate\<close>: the addresses returned, in call order.\<close>

fun allocate_n :: "nat \<Rightarrow> memory_pool \<Rightarrow> addr list \<times> memory_pool" where
  "allocate_n 0 p = ([], p)"
| "allocate_n (Suc n) p =
     (case allocate p of (r, d, p') \<Rightarrow>
        (case allocate_n n p' of (rs, p'') \<Rightarrow> (r # rs, p'')))"

section \<open>Concrete objects\<close>

text \<open>
  \<open>test_lru_cache\<close> in main.cpp constructs \<open>LRUCache<int, std::string> cache(3)\<close>
  and puts three entries: \<open>test_cache\<close> is that cache after construction,
  \<open>filled_cache\<close> after the three calls of \<open>put\<close>. \<open>small_pool\<close> is what
  \<open>MemoryPool(8, 2)\<close> constructs when \<open>::operator new\<close> returns address 4096 and
  the memory holds zeros (\<open>MemoryPool_small\<close> below): two blocks, at 4096 and 4104.
\<close>

definition test_cache :: "(int, string) lru_cache" where
  "test_cache = \<lparr>capacity = 3, cache_list = [], cache_map = Map.empty,
                 hits = 0, misses = 0, evictions = 0, next_node = 0\<rparr>"

definition filled_cache :: "(int, string) lru_cache" where
  "filled_cache = put (put (put test_cache 1 ''Alice'') 2 ''Bob'') 3 ''Charlie''"


definition small_pool :: memory_pool where
  "small_pool = \<lparr>memory_start = 4096, block_size = 8, block_count = 2, free_list = 4096,
                 allocations = 0, deallocations = 0, current_usage = 0,
                 heap = store_next (store_next (\<lambda>a. 0) 4104 0) 4096 4104\<rparr>"

section \<open>The cache: representation invariant\<close>

lemma deref_Some_iff:
  "distinct (map fst xs) \<Longrightarrow> deref it xs = Some n \<longleftrightarrow> n \<in> set xs \<and> fst n = it"
  unfolding deref_def
  by (induction xs) (auto simp: image_iff)

lemma deref_None_iff: "deref it xs = None \<longleftrightarrow> it \<notin> fst ` set xs"
  unfolding deref_def by (induction xs) auto

lemma index_of_Some_iff:
  "distinct (map (\<lambda>n. fst (snd n)) xs) \<Longrightarrow>
   index_of xs k = Some it \<longleftrightarrow> (\<exists>v. (it, k, v) \<in> set xs)"
  unfolding index_of_def
  by (induction xs) (auto simp: image_iff)

lemma index_of_None_iff: "index_of xs k = None \<longleftrightarrow> k \<notin> (\<lambda>n. fst (snd n)) ` set xs"
  unfolding index_of_def by (induction xs) auto

lemma index_of_eq_set:
  assumes "distinct (map (\<lambda>n. fst (snd n)) xs)" "distinct (map (\<lambda>n. fst (snd n)) ys)"
    and "set xs = set ys"
  shows "index_of xs = index_of ys"
proof (rule ext)
  fix k
  show "index_of xs k = index_of ys k"
  proof (cases "index_of xs k")
    case None
    then have "k \<notin> (\<lambda>n. fst (snd n)) ` set ys"
      using assms(3) by (simp add: index_of_None_iff)
    then have "index_of ys k = None"
      by (simp add: index_of_None_iff)
    with None show ?thesis by simp
  next
    case (Some it)
    then have "\<exists>v. (it, k, v) \<in> set ys"
      using assms(1,3) by (simp add: index_of_Some_iff)
    then have "index_of ys k = Some it"
      using assms(2) by (simp add: index_of_Some_iff)
    with Some show ?thesis by simp
  qed
qed

lemma distinct_map_remove1:
  "distinct (map f xs) \<Longrightarrow> distinct (map f (remove1 x xs))"
  by (induction xs) (auto simp: image_iff dest: notin_set_remove1)

lemma map_of_entries:
  "distinct (map (\<lambda>n. fst (snd n)) xs) \<Longrightarrow> (it, k, v) \<in> set xs \<Longrightarrow>
   map_of (map snd xs) k = Some v"
  by (induction xs) (auto simp: image_iff)

lemma entries_remove1:
  "distinct (map (\<lambda>n. fst (snd n)) xs) \<Longrightarrow> (it, k, v) \<in> set xs \<Longrightarrow>
   map snd (remove1 (it, k, v) xs) = filter (\<lambda>e. fst e \<noteq> k) (map snd xs)"
proof (induction xs)
  case Nil
  then show ?case by simp
next
  case (Cons n xs)
  show ?case
  proof (cases "n = (it, k, v)")
    case True
    with Cons.prems(1) have "\<forall>m \<in> set xs. fst (snd m) \<noteq> k"
      by (auto simp: image_iff)
    then have "filter (\<lambda>e. fst e \<noteq> k) (map snd xs) = map snd xs"
      by (induction xs) auto
    with True show ?thesis by simp
  next
    case False
    with Cons.prems have "(it, k, v) \<in> set xs" and "fst (snd n) \<noteq> k"
      by (auto simp: image_iff)
    with Cons False show ?thesis by simp
  qed
qed

lemma splice_front_live:
  assumes "distinct (map fst xs)" "n \<in> set xs"
  shows "splice_front (fst n) xs = n # remove1 n xs"
proof -
  have "deref (fst n) xs = Some n"
    using assms by (simp add: deref_Some_iff)
  then show ?thesis by (simp add: splice_front_def)
qed

lemma assign_value_absent:
  "it \<notin> fst ` set xs \<Longrightarrow> assign_value it v xs = xs"
  unfolding assign_value_def by (induction xs) auto

lemma map_fst_assign_value: "map fst (assign_value it v xs) = map fst xs"
  unfolding assign_value_def by (induction xs) auto

lemma map_key_assign_value:
  "map (\<lambda>n. fst (snd n)) (assign_value it v xs) = map (\<lambda>n. fst (snd n)) xs"
  unfolding assign_value_def by (induction xs) auto

lemma remove1_assign_value:
  "distinct (map fst xs) \<Longrightarrow> (it, k, v0) \<in> set xs \<Longrightarrow>
   remove1 (it, k, v) (assign_value it v xs) = remove1 (it, k, v0) xs"
proof (induction xs)
  case Nil
  then show ?case by simp
next
  case (Cons n xs)
  show ?case
  proof (cases "n = (it, k, v0)")
    case True
    with Cons.prems(1) have "it \<notin> fst ` set xs" by auto
    then have "assign_value it v xs = xs" by (rule assign_value_absent)
    then have "assign_value it v (n # xs) = (it, k, v) # xs"
      using True by (simp add: assign_value_def)
    with True show ?thesis by simp
  next
    case False
    with Cons.prems have m: "(it, k, v0) \<in> set xs" and "fst n \<noteq> it"
      by (auto simp: image_iff)
    then have "assign_value it v (n # xs) = n # assign_value it v xs" and "n \<noteq> (it, k, v)"
      by (auto simp: assign_value_def)
    with Cons False m show ?thesis by simp
  qed
qed

lemma assign_value_mem:
  "(it, k, v0) \<in> set xs \<Longrightarrow> (it, k, v) \<in> set (assign_value it v xs)"
  unfolding assign_value_def by (induction xs) auto

lemma splice_assign:
  assumes "distinct (map fst xs)" "(it, k, v0) \<in> set xs"
  shows "splice_front it (assign_value it v xs) = (it, k, v) # remove1 (it, k, v0) xs"
proof -
  have "distinct (map fst (assign_value it v xs))"
    using assms(1) by (simp add: map_fst_assign_value)
  moreover have "(it, k, v) \<in> set (assign_value it v xs)"
    using assms(2) by (rule assign_value_mem)
  ultimately have "splice_front (fst (it, k, v)) (assign_value it v xs) =
      (it, k, v) # remove1 (it, k, v) (assign_value it v xs)"
    by (rule splice_front_live)
  then show ?thesis using assms by (simp add: remove1_assign_value)
qed

lemma get_hit:
  assumes "lru_inv c" "cache_map c k = Some it"
  shows "\<exists>v. (it, k, v) \<in> set (cache_list c) \<and>
           get c k = (Some v, c\<lparr>hits := hits c + 1,
                                  cache_list := (it, k, v) # remove1 (it, k, v) (cache_list c)\<rparr>)"
proof -
  from assms have d: "distinct (map fst (cache_list c))"
    and "index_of (cache_list c) k = Some it"
    and "distinct (map (\<lambda>n. fst (snd n)) (cache_list c))"
    by (simp_all add: lru_inv_def)
  then obtain v where v: "(it, k, v) \<in> set (cache_list c)"
    by (auto simp: index_of_Some_iff)
  have s: "splice_front it (cache_list c) = (it, k, v) # remove1 (it, k, v) (cache_list c)"
    using splice_front_live [OF d v] by simp
  have "get c k = (Some v, c\<lparr>hits := hits c + 1,
                                  cache_list := (it, k, v) # remove1 (it, k, v) (cache_list c)\<rparr>)"
    using assms(2) by (simp add: get_def s deref_def)
  with v show ?thesis by blast
qed

lemma get_miss: "cache_map c k = None \<Longrightarrow> get c k = (None, c\<lparr>misses := misses c + 1\<rparr>)"
  by (simp add: get_def)

lemma put_existing:
  assumes "lru_inv c" "cache_map c k = Some it"
  shows "\<exists>v0. (it, k, v0) \<in> set (cache_list c) \<and>
           put c k v = c\<lparr>cache_list := (it, k, v) # remove1 (it, k, v0) (cache_list c)\<rparr>"
proof -
  from assms have d: "distinct (map fst (cache_list c))"
    and "index_of (cache_list c) k = Some it"
    and "distinct (map (\<lambda>n. fst (snd n)) (cache_list c))"
    by (simp_all add: lru_inv_def)
  then obtain v0 where v0: "(it, k, v0) \<in> set (cache_list c)"
    by (auto simp: index_of_Some_iff)
  have "put c k v = c\<lparr>cache_list := (it, k, v) # remove1 (it, k, v0) (cache_list c)\<rparr>"
    using assms(2) by (simp add: put_def splice_assign [OF d v0])
  with v0 show ?thesis by blast
qed

lemma map_eqI_Some:
  assumes "\<And>k v. m1 k = Some v \<longleftrightarrow> m2 k = Some v"
  shows "m1 = m2"
proof (rule ext)
  fix k
  show "m1 k = m2 k"
  proof (cases "m1 k")
    case None
    show ?thesis
    proof (cases "m2 k")
      case None
      with \<open>m1 k = None\<close> show ?thesis by simp
    next
      case (Some v)
      then have "m1 k = Some v" by (simp only: assms)
      with None show ?thesis by simp
    qed
  next
    case (Some v)
    then have "m2 k = Some v" by (simp only: assms [symmetric])
    with Some show ?thesis by simp
  qed
qed

lemma promote_list:
  fixes v :: 'v
  assumes ids: "distinct (map fst xs)"
    and keys: "distinct (map (\<lambda>n. fst (snd n)) xs)"
    and mem: "(it, k, v0) \<in> set xs"
  defines "ys \<equiv> (it, k, v) # remove1 (it, k, v0) xs"
  shows "distinct (map fst ys)"
    and "distinct (map (\<lambda>n. fst (snd n)) ys)"
    and "index_of ys = index_of xs"
    and "length ys = length xs"
    and "fst ` set ys = fst ` set xs"
proof -
  have dx: "distinct xs" using ids by (rule distinct_map [THEN iffD1, THEN conjunct1])
  have sr: "set (remove1 (it, k, v0) xs) = set xs - {(it, k, v0)}"
    using dx by (rule set_remove1_eq)
  have no_id: "it \<notin> fst ` set (remove1 (it, k, v0) xs)"
  proof
    assume "it \<in> fst ` set (remove1 (it, k, v0) xs)"
    then obtain n where n: "n \<in> set xs" "n \<noteq> (it, k, v0)" "fst n = it"
      using sr by auto
    from ids have "inj_on fst (set xs)" by (simp add: distinct_map)
    from inj_onD [OF this, of n "(it, k, v0)"] n mem show False by simp
  qed
  have no_key: "k \<notin> (\<lambda>n. fst (snd n)) ` set (remove1 (it, k, v0) xs)"
  proof
    assume "k \<in> (\<lambda>n. fst (snd n)) ` set (remove1 (it, k, v0) xs)"
    then obtain n where n: "n \<in> set xs" "n \<noteq> (it, k, v0)" "fst (snd n) = k"
      using sr by auto
    from keys have "inj_on (\<lambda>n. fst (snd n)) (set xs)" by (simp add: distinct_map)
    from inj_onD [OF this, of n "(it, k, v0)"] n mem show False by simp
  qed
  show 1: "distinct (map fst ys)"
    using no_id distinct_map_remove1 [OF ids] by (simp add: ys_def)
  show 2: "distinct (map (\<lambda>n. fst (snd n)) ys)"
    using no_key distinct_map_remove1 [OF keys] by (simp add: ys_def)
  have sy: "set ys = insert (it, k, v) (set xs - {(it, k, v0)})"
    by (simp add: ys_def sr)
  show "index_of ys = index_of xs"
  proof (rule map_eqI_Some)
    fix k' it'
    have "(\<exists>v'. (it', k', v') \<in> set ys) \<longleftrightarrow> (\<exists>v'. (it', k', v') \<in> set xs)"
      using mem by (auto simp: sy)
    then show "index_of ys k' = Some it' \<longleftrightarrow> index_of xs k' = Some it'"
      by (simp add: index_of_Some_iff [OF 2] index_of_Some_iff [OF keys])
  qed
  have "0 < length xs" using mem by (cases xs) auto
  then show "length ys = length xs"
    using mem by (simp add: ys_def length_remove1)
  show "fst ` set ys = fst ` set xs"
    using mem by (force simp: sy image_iff)
qed

lemma lru_inv_promote:
  assumes "lru_inv c" "(it, k, v0) \<in> set (cache_list c)"
  shows "lru_inv (c\<lparr>cache_list := (it, k, v) # remove1 (it, k, v0) (cache_list c)\<rparr>)"
proof -
  from assms(1) have ids: "distinct (map fst (cache_list c))"
    and keys: "distinct (map (\<lambda>n. fst (snd n)) (cache_list c))"
    and rest: "cache_map c = index_of (cache_list c)"
      "\<forall>n \<in> set (cache_list c). fst n < next_node c"
      "capacity c \<noteq> 0" "length (cache_list c) \<le> unat (capacity c)"
    by (simp_all add: lru_inv_def list_all_iff)
  note p = promote_list [OF ids keys assms(2), of v]
  have "\<forall>i \<in> fst ` set (cache_list c). i < next_node c"
    using rest(2) by auto
  then have "\<forall>i \<in> fst ` set ((it, k, v) # remove1 (it, k, v0) (cache_list c)). i < next_node c"
    by (simp only: p(5))
  then have "\<forall>n \<in> set ((it, k, v) # remove1 (it, k, v0) (cache_list c)). fst n < next_node c"
    by (simp only: ball_simps)
  with p rest show ?thesis
    by (simp add: lru_inv_def list_all_iff)
qed

lemma lru_inv_stats:
  "lru_inv (c\<lparr>hits := h\<rparr>) = lru_inv c"
  "lru_inv (c\<lparr>misses := m\<rparr>) = lru_inv c"
  "lru_inv (c\<lparr>evictions := e\<rparr>) = lru_inv c"
  by (simp_all add: lru_inv_def)

lemma lru_inv_LRUCache: "LRUCache cap = Inr c \<Longrightarrow> lru_inv c"
  by (auto simp: LRUCache_def lru_inv_def index_of_def split: if_splits)

lemma lru_inv_get:
  assumes "lru_inv c"
  shows "lru_inv (snd (get c k))"
proof (cases "cache_map c k")
  case None
  then show ?thesis using assms by (simp add: get_miss lru_inv_stats)
next
  case (Some it)
  from get_hit [OF assms Some] obtain v where v: "(it, k, v) \<in> set (cache_list c)"
    and g: "get c k = (Some v, c\<lparr>hits := hits c + 1,
                                  cache_list := (it, k, v) # remove1 (it, k, v) (cache_list c)\<rparr>)"
    by blast
  have "lru_inv (c\<lparr>hits := hits c + 1\<rparr>)" using assms by (simp add: lru_inv_stats)
  from lru_inv_promote [OF this, of it k v v] v show ?thesis
    by (simp add: g)
qed

lemma index_of_snoc:
  assumes "distinct (map (\<lambda>n. fst (snd n)) (ys @ [n]))"
  shows "index_of ys = (index_of (ys @ [n]))(fst (snd n) := None)"
proof (rule ext)
  fix k
  from assms have "fst (snd n) \<notin> (\<lambda>n. fst (snd n)) ` set ys" by auto
  then have "index_of ys (fst (snd n)) = None" by (simp add: index_of_None_iff)
  moreover have "index_of (ys @ [n]) k = (case index_of ys k of None \<Rightarrow> (if k = fst (snd n) then Some (fst n) else None) | Some i \<Rightarrow> Some i)"
    by (simp add: index_of_def map_add_def split: option.splits)
  ultimately show "index_of ys k = ((index_of (ys @ [n]))(fst (snd n) := None)) k"
    by (auto split: option.splits)
qed

lemma evict_lru_nonempty:
  assumes "lru_inv c" "unat (capacity c) \<le> length (cache_list c)"
  shows "distinct (map fst (cache_list (evict_lru c)))"
    and "distinct (map (\<lambda>n. fst (snd n)) (cache_list (evict_lru c)))"
    and "cache_map (evict_lru c) = index_of (cache_list (evict_lru c))"
    and "list_all (\<lambda>n. fst n < next_node (evict_lru c)) (cache_list (evict_lru c))"
    and "Suc (length (cache_list (evict_lru c))) = length (cache_list c)"
    and "evict_lru c = c\<lparr>cache_map := (cache_map c)(fst (snd (last (cache_list c))) := None),
                           cache_list := butlast (cache_list c),
                           evictions := evictions c + 1\<rparr>"
proof -
  from assms(1) have ids: "distinct (map fst (cache_list c))"
    and keys: "distinct (map (\<lambda>n. fst (snd n)) (cache_list c))"
    and idx: "cache_map c = index_of (cache_list c)"
    and old: "list_all (\<lambda>n. fst n < next_node c) (cache_list c)"
    and cap: "capacity c \<noteq> 0"
    by (simp_all add: lru_inv_def)
  from cap have "0 < unat (capacity c)" by (simp add: unat_gt_0)
  with assms(2) have ne: "cache_list c \<noteq> []" by auto
  then show e: "evict_lru c = c\<lparr>cache_map := (cache_map c)(fst (snd (last (cache_list c))) := None),
                           cache_list := butlast (cache_list c),
                           evictions := evictions c + 1\<rparr>"
    by (simp add: evict_lru_def)
  from ne have split: "cache_list c = butlast (cache_list c) @ [last (cache_list c)]" by simp
  show "distinct (map fst (cache_list (evict_lru c)))"
    using ids by (simp add: e map_butlast distinct_butlast)
  show "distinct (map (\<lambda>n. fst (snd n)) (cache_list (evict_lru c)))"
    using keys by (simp add: e map_butlast distinct_butlast)
  from keys split have "distinct (map (\<lambda>n. fst (snd n)) (butlast (cache_list c) @ [last (cache_list c)]))"
    by simp
  from index_of_snoc [OF this] split idx
  show "cache_map (evict_lru c) = index_of (cache_list (evict_lru c))"
    by (simp add: e)
  show "list_all (\<lambda>n. fst n < next_node (evict_lru c)) (cache_list (evict_lru c))"
    using old by (auto simp: e list_all_iff dest: in_set_butlastD)
  show "Suc (length (cache_list (evict_lru c))) = length (cache_list c)"
    using ne by (simp add: e)
qed

lemma put_new_full:
  assumes "lru_inv c" "cache_map c k = None" "unat (capacity c) \<le> length (cache_list c)"
  shows "put c k v =
      c\<lparr>cache_map := ((cache_map c)(fst (snd (last (cache_list c))) := None))(k \<mapsto> next_node c),
         cache_list := (next_node c, k, v) # butlast (cache_list c),
         evictions := evictions c + 1,
         next_node := Suc (next_node c)\<rparr>"
  using assms(2,3) by (simp add: put_def Let_def evict_lru_nonempty(6) [OF assms(1,3)])

lemma put_new_room:
  assumes "cache_map c k = None" "length (cache_list c) < unat (capacity c)"
  shows "put c k v =
      c\<lparr>cache_map := (cache_map c)(k \<mapsto> next_node c),
         cache_list := (next_node c, k, v) # cache_list c,
         next_node := Suc (next_node c)\<rparr>"
  using assms by (simp add: put_def Let_def)

lemma lru_inv_insert:
  assumes ids: "distinct (map fst xs)"
    and keys: "distinct (map (\<lambda>n. fst (snd n)) xs)"
    and old: "list_all (\<lambda>n. fst n < i) xs"
    and absent: "index_of xs k = None"
  shows "distinct (map fst ((i, k, v) # xs))"
    and "distinct (map (\<lambda>n. fst (snd n)) ((i, k, v) # xs))"
    and "index_of ((i, k, v) # xs) = (index_of xs)(k \<mapsto> i)"
    and "list_all (\<lambda>n. fst n < Suc i) ((i, k, v) # xs)"
proof -
  from old have "i \<notin> fst ` set xs" by (auto simp: list_all_iff)
  with ids show "distinct (map fst ((i, k, v) # xs))" by simp
  from absent have "k \<notin> (\<lambda>n. fst (snd n)) ` set xs" by (simp add: index_of_None_iff)
  with keys show "distinct (map (\<lambda>n. fst (snd n)) ((i, k, v) # xs))" by simp
  show "index_of ((i, k, v) # xs) = (index_of xs)(k \<mapsto> i)"
    by (simp add: index_of_def)
  from old show "list_all (\<lambda>n. fst n < Suc i) ((i, k, v) # xs)"
    by (auto simp: list_all_iff less_Suc_eq)
qed

lemma lru_inv_put:
  assumes "lru_inv c"
  shows "lru_inv (put c k v)"
proof (cases "cache_map c k")
  case (Some it)
  from put_existing [OF assms Some, of v] obtain v0
    where "(it, k, v0) \<in> set (cache_list c)"
      and "put c k v = c\<lparr>cache_list := (it, k, v) # remove1 (it, k, v0) (cache_list c)\<rparr>"
    by blast
  with lru_inv_promote [OF assms, of it k v0 v] show ?thesis by simp
next
  case None
  from assms have ids: "distinct (map fst (cache_list c))"
    and keys: "distinct (map (\<lambda>n. fst (snd n)) (cache_list c))"
    and idx: "cache_map c = index_of (cache_list c)"
    and old: "list_all (\<lambda>n. fst n < next_node c) (cache_list c)"
    and cap: "capacity c \<noteq> 0"
    and len: "length (cache_list c) \<le> unat (capacity c)"
    by (simp_all add: lru_inv_def)
  show ?thesis
  proof (cases "unat (capacity c) \<le> length (cache_list c)")
    case True
    note e = evict_lru_nonempty [OF assms True]
    let ?c1 = "evict_lru c"
    have nn: "next_node ?c1 = next_node c" by (simp add: e(6))
    have "cache_map ?c1 k = None" using None by (simp add: e(6))
    then have "index_of (cache_list ?c1) k = None" by (simp add: e(3))
    note i = lru_inv_insert [OF e(1) e(2) e(4) this, of v]
    have p: "put c k v = ?c1\<lparr>cache_list := (next_node ?c1, k, v) # cache_list ?c1,
                  cache_map := (cache_map ?c1)(k \<mapsto> next_node ?c1),
                  next_node := Suc (next_node ?c1)\<rparr>"
      using None True by (simp add: put_def Let_def)
    have "capacity ?c1 = capacity c" by (simp add: e(6))
    with i e(3) e(5) cap len show ?thesis
      by (simp add: p lru_inv_def)
  next
    case False
    from None idx have "index_of (cache_list c) k = None" by simp
    note i = lru_inv_insert [OF ids keys old this, of v]
    from False have "length (cache_list c) < unat (capacity c)" by simp
    with i idx cap show ?thesis
      by (simp add: put_new_room [OF None] lru_inv_def)
  qed
qed

lemma lru_inv_put_all: "lru_inv c \<Longrightarrow> lru_inv (put_all c kvs)"
  by (induction c kvs rule: put_all.induct) (simp_all add: lru_inv_put)

lemma capacity_put: "capacity (put c k v) = capacity c"
  by (simp add: put_def evict_lru_def Let_def split: option.splits)

lemma capacity_put_all: "capacity (put_all c kvs) = capacity c"
  by (induction c kvs rule: put_all.induct) (simp_all add: capacity_put)

lemma put_all_size_le:
  assumes "LRUCache cap = Inr c0"
  shows "cache_size (put_all c0 kvs) \<le> unat cap"
proof -
  have "lru_inv (put_all c0 kvs)"
    using assms by (intro lru_inv_put_all lru_inv_LRUCache)
  moreover have "capacity c0 = cap"
    using assms by (auto simp: LRUCache_def split: if_splits)
  ultimately show ?thesis
    by (simp add: lru_inv_def cache_size_def capacity_put_all)
qed

section \<open>The pool: memory and address arithmetic\<close>

lemma store_next_byte:
  assumes "i < 8"
  shows "store_next m a v (a + of_nat i) = ucast (drop_bit (8 * i) v)"
proof -
  have "unat (of_nat i :: 64 word) = i" using assms by (simp add: unat_of_nat)
  moreover have "(of_nat i :: 64 word) < 8" using assms calculation by (simp add: word_less_nat_alt)
  ultimately show ?thesis by (simp add: store_next_def)
qed

lemma bit_load_next:
  "bit (load_next m a) n \<longleftrightarrow> n < 64 \<and> bit (m (a + of_nat (n div 8))) (n mod 8)"
proof -
  let ?ws = "map (\<lambda>i. m (a + of_nat i)) [0..<8]"
  have "bit (horner_sum uint (2 ^ LENGTH(8)) ?ws) n \<longleftrightarrow>
      n div LENGTH(8) < length ?ws \<and> bit (?ws ! (n div LENGTH(8))) (n mod LENGTH(8))"
    by (rule bit_horner_sum_uint_exp_iff)
  moreover have "length ?ws = 8" by simp
  moreover have "?ws ! j = m (a + of_nat j)" if "j < 8" for j
    using that by (simp del: upt_rec_numeral)
  moreover have "n div 8 < 8 \<longleftrightarrow> n < 64" by auto
  ultimately have "bit (horner_sum uint (2 ^ 8) ?ws) n \<longleftrightarrow>
      n < 64 \<and> bit (m (a + of_nat (n div 8))) (n mod 8)"
    by (auto simp del: upt_rec_numeral)
  then show ?thesis
    unfolding load_next_def by (auto simp: bit_word_of_int_iff simp del: upt_rec_numeral)
qed

lemma load_store_same: "load_next (store_next m a v) a = v"
proof (rule bit_word_eqI)
  fix n assume "n < LENGTH(64)"
  then have n: "n < 64" by simp
  then have "n div 8 < 8" by simp
  then show "bit (load_next (store_next m a v) a) n \<longleftrightarrow> bit v n"
    using n by (simp add: bit_load_next store_next_byte bit_simps)
qed

lemma store_next_other:
  assumes "apart a b" "i < 8"
  shows "store_next m a v (b + of_nat i) = m (b + of_nat i)"
proof -
  have u: "unat (of_nat i :: 64 word) = i" using assms by (simp add: unat_of_nat)
  have "\<not> (b - a) + (of_nat i :: 64 word) < 8"
    using assms u unfolding apart_def by unat_arith
  moreover have "(b - a) + of_nat i = b + of_nat i - a" by simp
  ultimately have "\<not> b + of_nat i - a < 8" by metis
  then show ?thesis by (simp add: store_next_def)
qed

lemma load_store_other:
  assumes "apart a b"
  shows "load_next (store_next m a v) b = load_next m b"
proof (rule bit_word_eqI)
  fix n assume "n < LENGTH(64)"
  then have "n div 8 < 8" by simp
  then show "bit (load_next (store_next m a v) b) n \<longleftrightarrow> bit (load_next m b) n"
    by (simp add: bit_load_next store_next_other [OF assms])
qed

lemma apart_sym: "apart a b \<Longrightarrow> apart b a"
  by (simp add: apart_def)

lemma apart_arith:
  fixes x y N :: nat
  shows "x + 8 \<le> y \<Longrightarrow> y + 8 \<le> N \<Longrightarrow> 8 \<le> y - x \<and> 8 \<le> x + N - y"
  by arith

lemma apart_nat:
  fixes a b :: addr
  assumes "unat a + 8 \<le> unat b" "unat b + 8 \<le> 2 ^ LENGTH(64)"
  shows "apart a b"
proof -
  have 8: "unat (8 :: addr) = 8" by simp
  from assms(1) have "unat a \<le> unat b" and n: "\<not> unat b \<le> unat a" by simp_all
  then have 1: "unat (b - a) = unat b - unat a"
    by (simp only: unat_sub_if' if_True)
  from n have 2: "unat (a - b) = unat a + 2 ^ LENGTH(64) - unat b"
    by (simp only: unat_sub_if' if_False)
  from apart_arith [OF assms] show ?thesis
    unfolding apart_def word_le_nat_alt by (simp only: 1 2 8)
qed

lemma block_offset_bound:
  assumes "i < n"
  shows "i * b + b \<le> b * (n::nat)"
proof -
  from assms have "Suc i \<le> n" by simp
  then have "Suc i * b \<le> n * b" by (rule mult_le_mono1)
  then show ?thesis by (simp add: ac_simps)
qed

lemma less_add_right: "(s::nat) + m < N \<Longrightarrow> m < N"
  by simp

lemma arena_okD:
  assumes "arena_ok p"
  shows "0 < unat (memory_start p)" and "8 \<le> unat (block_size p)"
    and "unat (memory_start p) + unat (block_size p) * unat (block_count p) < 2 ^ LENGTH(64)"
    and "unat (block_size p * block_count p) = unat (block_size p) * unat (block_count p)"
    and "unat (memory_start p + block_size p * block_count p) =
         unat (memory_start p) + unat (block_size p) * unat (block_count p)"
proof -
  from assms show 1: "0 < unat (memory_start p)"
    by (simp add: arena_ok_def unat_gt_0)
  from assms have "unat (8 :: 64 word) \<le> unat (block_size p)"
    unfolding arena_ok_def sizeof_FreeBlock_def word_le_nat_alt by blast
  then show "8 \<le> unat (block_size p)" by simp
  from assms show 3: "unat (memory_start p) + unat (block_size p) * unat (block_count p) < 2 ^ LENGTH(64)"
    by (simp add: arena_ok_def)
  then have "unat (block_size p) * unat (block_count p) < 2 ^ LENGTH(64)"
    by (rule less_add_right)
  then show 4: "unat (block_size p * block_count p) = unat (block_size p) * unat (block_count p)"
    by (rule unat_mult_lem [THEN iffD1])
  from 3 have "unat (memory_start p) + unat (block_size p * block_count p) < 2 ^ LENGTH(64)"
    by (simp only: 4)
  then show "unat (memory_start p + block_size p * block_count p) =
         unat (memory_start p) + unat (block_size p) * unat (block_count p)"
    by (simp only: unat_add_lem [THEN iffD1] 4)
qed

lemma offset_fits:
  fixes x b M s N :: nat
  shows "x + b \<le> M \<Longrightarrow> s + M < N \<Longrightarrow> s + x < N"
  by arith

lemma unat_block_addr:
  assumes "arena_ok p" "i < unat (block_count p)"
  shows "unat (block_addr p i) = unat (memory_start p) + i * unat (block_size p)"
proof -
  let ?b = "unat (block_size p)" and ?s = "unat (memory_start p)"
  note fit = arena_okD(3) [OF assms(1)]
  have lt: "?s + i * ?b < 2 ^ LENGTH(64)"
    using block_offset_bound [OF assms(2)] fit by (rule offset_fits)
  have i: "unat (of_nat i :: 64 word) = i"
    using assms(2) by (intro le_unat_uoi [of _ "block_count p"]) simp
  from lt have "i * ?b < 2 ^ LENGTH(64)" by (rule less_add_right)
  then have "unat (of_nat i :: 64 word) * ?b < 2 ^ LENGTH(64)" by (simp only: i)
  then have m: "unat (of_nat i * block_size p) = i * ?b"
    by (simp only: unat_mult_lem [THEN iffD1] i)
  from lt have "?s + unat (of_nat i * block_size p) < 2 ^ LENGTH(64)" by (simp only: m)
  then show ?thesis
    unfolding block_addr_def by (simp only: unat_add_lem [THEN iffD1] m)
qed

lemma block_gap:
  fixes i j b :: nat
  assumes "i < j" "8 \<le> b"
  shows "i * b + 8 \<le> j * b"
proof -
  from assms(1) have "Suc i \<le> j" by simp
  then have "Suc i * b \<le> j * b" by (rule mult_le_mono1)
  with assms(2) show ?thesis by simp
qed

lemma block_top:
  fixes x b M s N :: nat
  shows "x + b \<le> M \<Longrightarrow> s + M < N \<Longrightarrow> 8 \<le> b \<Longrightarrow> s + x + 8 \<le> N"
  by arith

lemma block_addr_apart:
  assumes "arena_ok p" "i < unat (block_count p)" "j < unat (block_count p)" "i < j"
  shows "apart (block_addr p i) (block_addr p j)"
proof (rule apart_nat)
  let ?b = "unat (block_size p)" and ?s = "unat (memory_start p)"
  note b8 = arena_okD(2) [OF assms(1)] and fit = arena_okD(3) [OF assms(1)]
  from block_gap [OF assms(4) b8]
  show "unat (block_addr p i) + 8 \<le> unat (block_addr p j)"
    by (simp only: unat_block_addr [OF assms(1,2)] unat_block_addr [OF assms(1,3)]
        add.assoc add_le_cancel_left)
  from block_top [OF block_offset_bound [OF assms(3)] fit b8]
  show "unat (block_addr p j) + 8 \<le> 2 ^ LENGTH(64)"
    by (simp only: unat_block_addr [OF assms(1,3)])
qed

lemma apart_neq: "apart a b \<Longrightarrow> a \<noteq> b"
  by (auto simp: apart_def)

lemma block_addr_neq:
  assumes "arena_ok p" "i < unat (block_count p)" "j < unat (block_count p)" "i \<noteq> j"
  shows "apart (block_addr p i) (block_addr p j)"
proof (cases "i < j")
  case True
  with assms(1-3) show ?thesis by (rule block_addr_apart)
next
  case False
  with assms(4) have "j < i" by simp
  with assms(1,3,2) have "apart (block_addr p j) (block_addr p i)" by (rule block_addr_apart)
  then show ?thesis by (rule apart_sym)
qed

lemma distinct_block_addrs:
  assumes "arena_ok p"
  shows "distinct (block_addrs p)"
  unfolding block_addrs_def distinct_map
proof (intro conjI inj_onI)
  show "distinct [0..<unat (block_count p)]" by simp
next
  fix i j
  assume "i \<in> set [0..<unat (block_count p)]" "j \<in> set [0..<unat (block_count p)]"
    and e: "block_addr p i = block_addr p j"
  then have ij: "i < unat (block_count p)" "j < unat (block_count p)" by simp_all
  show "i = j"
  proof (rule ccontr)
    assume "i \<noteq> j"
    with assms ij have "apart (block_addr p i) (block_addr p j)" by (rule block_addr_neq)
    with e show False by (auto dest: apart_neq)
  qed
qed

lemma block_addrs_apart:
  assumes "arena_ok p" "a \<in> set (block_addrs p)" "b \<in> set (block_addrs p)" "a \<noteq> b"
  shows "apart a b"
proof -
  from assms(2,3) obtain i j where ij: "i < unat (block_count p)" "j < unat (block_count p)"
    and ab: "a = block_addr p i" "b = block_addr p j"
    by (auto simp: block_addrs_def)
  with assms(4) have "i \<noteq> j" by auto
  with assms(1) ij show ?thesis unfolding ab by (rule block_addr_neq)
qed

lemma in_range_arith:
  fixes x b M s :: nat
  shows "x + b \<le> M \<Longrightarrow> 8 \<le> b \<Longrightarrow> s \<le> s + x \<and> s + x < s + M"
  by arith

lemma block_addr_from_pool:
  assumes "arena_ok p" "a \<in> set (block_addrs p)"
  shows "a \<noteq> 0" and "is_from_pool p a"
proof -
  let ?b = "unat (block_size p)" and ?s = "unat (memory_start p)"
  from assms(2) obtain i where i: "i < unat (block_count p)" and a: "a = block_addr p i"
    by (auto simp: block_addrs_def)
  note d = arena_okD [OF assms(1)]
  have ua: "unat a = ?s + i * ?b" unfolding a by (rule unat_block_addr [OF assms(1) i])
  with d(1) have "unat a \<noteq> 0" by simp
  then show "a \<noteq> 0" by auto
  from in_range_arith [OF block_offset_bound [OF i] d(2), of ?s]
  show "is_from_pool p a"
    unfolding is_from_pool_def Let_def word_le_nat_alt word_less_nat_alt
    by (simp only: ua d(5))
qed

lemma is_chain_store:
  "\<forall>x \<in> set xs. apart a x \<Longrightarrow> is_chain (store_next m a v) h xs = is_chain m h xs"
  by (induction xs arbitrary: h) (auto simp: load_store_other)

lemma is_chain_unique: "is_chain m h xs \<Longrightarrow> is_chain m h ys \<Longrightarrow> xs = ys"
proof (induction xs arbitrary: h ys)
  case Nil
  then show ?case by (cases ys) auto
next
  case (Cons x xs)
  then show ?case by (cases ys) auto
qed

lemma is_chain_nonnull: "is_chain m h xs \<Longrightarrow> 0 \<notin> set xs"
  by (induction xs arbitrary: h) auto

section \<open>The pool: free list and invariant\<close>

lemmas init_loop_simps = init_free_list_loop.simps
declare init_free_list_loop.simps [simp del]

lemma init_loop_fields:
  "memory_start (init_free_list_loop p i c) = memory_start p \<and>
   block_size (init_free_list_loop p i c) = block_size p \<and>
   block_count (init_free_list_loop p i c) = block_count p \<and>
   allocations (init_free_list_loop p i c) = allocations p \<and>
   deallocations (init_free_list_loop p i c) = deallocations p \<and>
   current_usage (init_free_list_loop p i c) = current_usage p"
proof (induction p i c rule: init_free_list_loop.induct)
  case (1 p i current)
  show ?case
  proof (cases "i < block_count p")
    case True
    with 1 show ?thesis by (subst (1 2 3 4 5 6) init_loop_simps) simp
  next
    case False
    then show ?thesis by (subst (1 2 3 4 5 6) init_loop_simps) simp
  qed
qed

lemma block_addr_update [simp]:
  "block_addr (p\<lparr>heap := h\<rparr>) = block_addr p"
  "block_addr (p\<lparr>free_list := f\<rparr>) = block_addr p"
  by (simp_all add: block_addr_def fun_eq_iff)

lemma arena_ok_update [simp]:
  "arena_ok (p\<lparr>heap := h\<rparr>) = arena_ok p"
  "arena_ok (p\<lparr>free_list := f\<rparr>) = arena_ok p"
  by (simp_all add: arena_ok_def)

lemma block_addr_pred:
  assumes "0 < n"
  shows "block_addr p n - block_size p = block_addr p (n - 1)"
proof -
  from assms obtain m where "n = Suc m" by (cases n) auto
  then show ?thesis by (simp add: block_addr_def algebra_simps)
qed

lemma init_loop_chain:
  assumes "arena_ok p" "unat i \<le> unat (block_count p)"
    and "i < block_count p \<longrightarrow> current = block_addr p (unat (block_count p) - Suc (unat i))"
    and "is_chain (heap p) (free_list p)
           (map (block_addr p) [unat (block_count p) - unat i ..< unat (block_count p)])"
  shows "is_chain (heap (init_free_list_loop p i current))
           (free_list (init_free_list_loop p i current))
           (map (block_addr p) [0 ..< unat (block_count p)])"
  using assms
proof (induction p i current rule: init_free_list_loop.induct)
  case (1 p i current)
  let ?n = "unat (block_count p)"
  show ?case
  proof (cases "i < block_count p")
    case False
    with "1.prems"(2) have "unat i = ?n" by (simp add: word_less_nat_alt)
    with "1.prems"(4) False show ?thesis
      by (subst (1 2) init_loop_simps) simp
  next
    case True
    then have lt: "unat i < ?n" by (simp add: word_less_nat_alt)
    have si: "unat (i + 1) = Suc (unat i)" using True by unat_arith
    let ?j = "?n - Suc (unat i)"
    have j: "?j < ?n" using lt by simp
    from "1.prems"(3) True have cur: "current = block_addr p ?j" by simp
    let ?p' = "p\<lparr>heap := store_next (heap p) current (free_list p), free_list := current\<rparr>"
    have range: "[?n - unat i ..< ?n] = [Suc ?j ..< ?n]"
      using lt by (simp add: Suc_diff_Suc)
    have ap: "\<forall>x \<in> set (map (block_addr p) [Suc ?j ..< ?n]). apart current x"
      using block_addr_apart [OF "1.prems"(1) j] by (auto simp: cur)
    have "block_addr p ?j \<in> set (block_addrs p)"
      using j by (simp add: block_addrs_def)
    then have nz: "current \<noteq> 0"
      using block_addr_from_pool(1) [OF "1.prems"(1)] by (simp add: cur)
    have ch: "is_chain (heap ?p') (free_list ?p') (map (block_addr ?p') [?j ..< ?n])"
      using "1.prems"(4) nz ap j cur
      by (simp add: upt_conv_Cons [of ?j ?n] load_store_same is_chain_store range)
    have "is_chain (heap (init_free_list_loop ?p' (i + 1) (current - block_size p)))
           (free_list (init_free_list_loop ?p' (i + 1) (current - block_size p)))
           (map (block_addr ?p') [0 ..< unat (block_count ?p')])"
    proof (rule "1.IH" [OF True])
      show "arena_ok ?p'" using "1.prems"(1) by simp
      show "unat (i + 1) \<le> unat (block_count ?p')" using lt si by simp
      show "i + 1 < block_count ?p' \<longrightarrow>
          current - block_size p = block_addr ?p' (unat (block_count ?p') - Suc (unat (i + 1)))"
      proof
        assume "i + 1 < block_count ?p'"
        then have "Suc (unat i) < ?n" by (simp add: word_less_nat_alt si)
        then have "0 < ?j" by simp
        from block_addr_pred [OF this, of p]
        show "current - block_size p = block_addr ?p' (unat (block_count ?p') - Suc (unat (i + 1)))"
          by (simp add: cur si)
      qed
      show "is_chain (heap ?p') (free_list ?p')
           (map (block_addr ?p') [unat (block_count ?p') - unat (i + 1) ..< unat (block_count ?p')])"
        using ch by (simp add: si)
    qed
    then show ?thesis
      using True by (subst (1 2) init_loop_simps) simp
  qed
qed

lemma block_addrs_update [simp]:
  "block_addrs (p\<lparr>heap := h\<rparr>) = block_addrs p"
  "block_addrs (p\<lparr>free_list := f\<rparr>) = block_addrs p"
  "block_addrs (p\<lparr>allocations := n\<rparr>) = block_addrs p"
  "block_addrs (p\<lparr>deallocations := n\<rparr>) = block_addrs p"
  "block_addrs (p\<lparr>current_usage := n\<rparr>) = block_addrs p"
  by (simp_all add: block_addrs_def block_addr_def)

lemma arena_ok_update2 [simp]:
  "arena_ok (p\<lparr>allocations := n\<rparr>) = arena_ok p"
  "arena_ok (p\<lparr>deallocations := n\<rparr>) = arena_ok p"
  "arena_ok (p\<lparr>current_usage := n\<rparr>) = arena_ok p"
  by (simp_all add: arena_ok_def)

lemma partition_count:
  assumes "arena_ok p" "distinct out" "distinct fl"
    and "set fl \<inter> set out = {}" "set fl \<union> set out = set (block_addrs p)"
  shows "length fl + length out = unat (block_count p)"
proof -
  have "length fl + length out = card (set fl) + card (set out)"
    using assms(2,3) by (simp add: distinct_card)
  also have "\<dots> = card (set fl \<union> set out)"
    using assms(4) by (simp add: card_Un_disjoint)
  also have "\<dots> = length (block_addrs p)"
    using distinct_block_addrs [OF assms(1)] by (simp add: assms(5) distinct_card)
  finally show ?thesis by (simp add: block_addrs_def)
qed

lemma pool_inv_allocate:
  assumes "pool_inv p out" "allocate p = (r, d, p')"
  shows "pool_inv p' (if r = 0 then out else r # out)"
    and "r \<noteq> 0 \<Longrightarrow> r \<in> set (block_addrs p) \<and> r \<notin> set out"
proof -
  from assms(1) obtain fl where ok: "arena_ok p" and dout: "distinct out"
    and use: "unat (current_usage p) = length out"
    and ch: "is_chain (heap p) (free_list p) fl" and dfl: "distinct fl"
    and dis: "set fl \<inter> set out = {}" and cov: "set fl \<union> set out = set (block_addrs p)"
    by (auto simp: pool_inv_def free_list_partition_def)
  show "pool_inv p' (if r = 0 then out else r # out)"
  proof (cases "free_list p = 0")
    case True
    with assms show ?thesis by (simp add: allocate_def)
  next
    case False
    with ch obtain fl' where fl: "fl = free_list p # fl'"
      and ch': "is_chain (heap p) (load_next (heap p) (free_list p)) fl'"
      by (cases fl) auto
    from False assms(2) have r: "r = free_list p"
      and p': "p' = p\<lparr>free_list := load_next (heap p) (free_list p),
                      allocations := allocations p + 1,
                      current_usage := current_usage p + 1\<rparr>"
      by (auto simp: allocate_def Let_def)
    from partition_count [OF ok dout dfl dis cov] fl
    have "length out < unat (block_count p)" by simp
    with use have "unat (current_usage p) < unat (block_count p)" by simp
    then have "unat (current_usage p + 1) = Suc (unat (current_usage p))"
      by unat_arith
    with use have u: "unat (current_usage p') = length (r # out)" by (simp add: p')
    from dis fl r have rn: "r \<notin> set out" by auto
    have "free_list_partition p' (set (r # out))"
      unfolding free_list_partition_def
    proof (intro exI conjI)
      show "is_chain (heap p') (free_list p') fl'" using ch' by (simp add: p')
      show "distinct fl'" using dfl fl by simp
      show "set fl' \<inter> set (r # out) = {}" using dis dfl fl r by auto
      show "set fl' \<union> set (r # out) = set (block_addrs p')"
        using cov fl r by (auto simp: p')
    qed
    with ok dout rn u False r show ?thesis
      by (simp add: pool_inv_def p')
  qed
  show "r \<in> set (block_addrs p) \<and> r \<notin> set out" if "r \<noteq> 0"
  proof -
    from that assms(2) have "free_list p \<noteq> 0" and r: "r = free_list p"
      by (auto simp: allocate_def Let_def split: if_splits)
    with ch obtain fl' where "fl = r # fl'" by (cases fl) auto
    with dis cov show ?thesis by auto
  qed
qed

lemma pool_inv_outstanding:
  assumes "pool_inv p out" "a \<in> set out"
  shows "a \<in> set (block_addrs p)"
  using assms by (auto simp: pool_inv_def free_list_partition_def)

lemma deallocate_refused:
  "a = 0 \<or> \<not> is_from_pool p a \<Longrightarrow> snd (deallocate p a) = p"
  by (auto simp: deallocate_def)

lemma deallocate_accepted:
  "a \<noteq> 0 \<Longrightarrow> is_from_pool p a \<Longrightarrow>
   deallocate p a = ([], p\<lparr>heap := store_next (heap p) a (free_list p),
              free_list := a,
              deallocations := deallocations p + 1,
              current_usage := current_usage p - 1\<rparr>)"
  by (simp add: deallocate_def)

lemma pool_inv_deallocate:
  assumes "pool_inv p out" "a \<in> set out"
  shows "pool_inv (snd (deallocate p a)) (remove1 a out)"
proof -
  from assms(1) obtain fl where ok: "arena_ok p" and dout: "distinct out"
    and use: "unat (current_usage p) = length out"
    and ch: "is_chain (heap p) (free_list p) fl" and dfl: "distinct fl"
    and dis: "set fl \<inter> set out = {}" and cov: "set fl \<union> set out = set (block_addrs p)"
    by (auto simp: pool_inv_def free_list_partition_def)
  from cov assms(2) have ab: "a \<in> set (block_addrs p)" by auto
  note acc = block_addr_from_pool [OF ok ab]
  let ?p' = "p\<lparr>heap := store_next (heap p) a (free_list p),
              free_list := a,
              deallocations := deallocations p + 1,
              current_usage := current_usage p - 1\<rparr>"
  have p': "snd (deallocate p a) = ?p'"
    using acc by (simp add: deallocate_accepted)
  from assms(2) have "0 < length out" by (cases out) auto
  with use have "current_usage p \<noteq> 0" by auto
  then have "unat (current_usage p - 1) = unat (current_usage p) - 1"
    by (rule unat_minus_one)
  with use assms(2) have u: "unat (current_usage ?p') = length (remove1 a out)"
    by (simp add: length_remove1)
  from dis assms(2) have afl: "a \<notin> set fl" by auto
  have "\<forall>x \<in> set fl. apart a x"
  proof
    fix x assume x: "x \<in> set fl"
    with cov have "x \<in> set (block_addrs p)" by auto
    moreover from x afl have "a \<noteq> x" by auto
    ultimately show "apart a x" using ok ab by (intro block_addrs_apart)
  qed
  then have ch': "is_chain (heap ?p') (free_list ?p') (a # fl)"
    using ch acc(1) by (simp add: load_store_same is_chain_store)
  have "free_list_partition ?p' (set (remove1 a out))"
    unfolding free_list_partition_def
  proof (intro exI conjI)
    show "is_chain (heap ?p') (free_list ?p') (a # fl)" by (rule ch')
    show "distinct (a # fl)" using dfl afl by simp
    show "set (a # fl) \<inter> set (remove1 a out) = {}" using dis dout by auto
    show "set (a # fl) \<union> set (remove1 a out) = set (block_addrs ?p')"
      using cov dout assms(2) by auto
  qed
  with ok dout u show ?thesis
    by (simp add: pool_inv_def p')
qed

lemma pool_inv_step:
  assumes "pool_inv p out" "op_ok (p, out) x"
  shows "pool_inv (fst (pool_step (p, out) x)) (snd (pool_step (p, out) x))"
proof (cases x)
  case Allocate
  obtain r d p' where a: "allocate p = (r, d, p')" by (cases "allocate p") auto
  from pool_inv_allocate(1) [OF assms(1) a] show ?thesis
    by (simp add: Allocate a)
next
  case (Deallocate a)
  show ?thesis
  proof (cases "a \<in> set out")
    case True
    have "a \<in> set (block_addrs p)" using assms(1) True by (rule pool_inv_outstanding)
    with assms(1) have "a \<noteq> 0" "is_from_pool p a"
      by (auto simp: pool_inv_def dest: block_addr_from_pool)
    with pool_inv_deallocate [OF assms(1) True] show ?thesis
      by (simp add: Deallocate)
  next
    case False
    with assms(2) have rej: "a = 0 \<or> \<not> is_from_pool p a" by (simp add: Deallocate)
    then have "snd (deallocate p a) = p" by (rule deallocate_refused)
    with rej assms(1) show ?thesis by (auto simp: Deallocate)
  qed
qed

lemma pool_inv_run:
  "pool_inv (fst s) (snd s) \<Longrightarrow> disciplined s ops \<Longrightarrow>
   pool_inv (fst (run_pool s ops)) (snd (run_pool s ops))"
proof (induction ops arbitrary: s)
  case Nil
  then show ?case by simp
next
  case (Cons x ops)
  obtain p out where s: "s = (p, out)" by (cases s) auto
  with Cons.prems have "pool_inv p out" "op_ok (p, out) x" by simp_all
  then have "pool_inv (fst (pool_step s x)) (snd (pool_step s x))"
    unfolding s by (rule pool_inv_step)
  moreover from Cons.prems have "disciplined (pool_step s x) ops" by simp
  ultimately show ?case using Cons.IH by simp
qed

lemma pool_inv_usage:
  assumes "pool_inv p out"
  shows "unat (current_usage p) \<le> unat (block_count p)"
proof -
  from assms obtain fl where ok: "arena_ok p" and dout: "distinct out"
    and use: "unat (current_usage p) = length out"
    and dfl: "distinct fl"
    and dis: "set fl \<inter> set out = {}" and cov: "set fl \<union> set out = set (block_addrs p)"
    by (auto simp: pool_inv_def free_list_partition_def)
  from partition_count [OF ok dout dfl dis cov] use show ?thesis by simp
qed

lemma MemoryPool_Inr:
  assumes "MemoryPool bsize bcount operator_new h0 = Inr p"
  shows "p = init_free_list
           \<lparr>memory_start = memory_start p, block_size = (if bsize < 8 then 8 else bsize),
            block_count = bcount, free_list = 0, allocations = 0, deallocations = 0,
            current_usage = 0, heap = h0\<rparr>"
    and "operator_new ((if bsize < 8 then 8 else bsize) * bcount) = Some (memory_start p)"
    and "memory_start p \<noteq> 0"
    and "block_size p = (if bsize < 8 then 8 else bsize)"
    and "block_count p = bcount"
    and "allocations p = 0" and "deallocations p = 0" and "current_usage p = 0"
proof -
  let ?bs = "if bsize < 8 then 8 else bsize"
  from assms obtain start where n: "operator_new (?bs * bcount) = Some start"
    and s: "start \<noteq> 0"
    and p: "p = init_free_list
           \<lparr>memory_start = start, block_size = ?bs,
            block_count = bcount, free_list = 0, allocations = 0, deallocations = 0,
            current_usage = 0, heap = h0\<rparr>"
    by (auto simp: MemoryPool_def sizeof_FreeBlock_def Let_def split: option.splits if_splits)
  have f: "memory_start p = start" "block_size p = ?bs" "block_count p = bcount"
    "allocations p = 0" "deallocations p = 0" "current_usage p = 0"
    unfolding p init_free_list_def by (simp_all add: init_loop_fields)
  from f p show "p = init_free_list
           \<lparr>memory_start = memory_start p, block_size = ?bs,
            block_count = bcount, free_list = 0, allocations = 0, deallocations = 0,
            current_usage = 0, heap = h0\<rparr>" by simp
  from f n s show "operator_new (?bs * bcount) = Some (memory_start p)"
    "memory_start p \<noteq> 0" "block_size p = ?bs" "block_count p = bcount"
    "allocations p = 0" "deallocations p = 0" "current_usage p = 0"
    by simp_all
qed

lemma init_free_list_chain:
  assumes "arena_ok p"
  shows "is_chain (heap (init_free_list p)) (free_list (init_free_list p)) (block_addrs p)"
proof -
  let ?q = "p\<lparr>free_list := 0\<rparr>"
  let ?cur = "memory_start p + (block_count p - 1) * block_size p"
  have "is_chain (heap (init_free_list_loop ?q 0 ?cur)) (free_list (init_free_list_loop ?q 0 ?cur))
          (map (block_addr ?q) [0 ..< unat (block_count ?q)])"
  proof (rule init_loop_chain)
    show "arena_ok ?q" using assms by simp
    show "unat (0 :: 64 word) \<le> unat (block_count ?q)" by simp
    show "0 < block_count ?q \<longrightarrow> ?cur = block_addr ?q (unat (block_count ?q) - Suc (unat (0 :: 64 word)))"
    proof
      assume "0 < block_count ?q"
      then have "block_count p \<noteq> 0" by auto
      then have "unat (block_count p - 1) = unat (block_count p) - 1" by (rule unat_minus_one)
      then have "of_nat (unat (block_count p) - 1) = block_count p - 1"
        by (metis of_nat_unat ucast_id)
      then show "?cur = block_addr ?q (unat (block_count ?q) - Suc (unat (0 :: 64 word)))"
        by (simp add: block_addr_def)
    qed
    show "is_chain (heap ?q) (free_list ?q)
        (map (block_addr ?q) [unat (block_count ?q) - unat (0 :: 64 word) ..< unat (block_count ?q)])"
      by simp
  qed
  then show ?thesis by (simp add: init_free_list_def block_addrs_def)
qed

lemma fresh_pool_chain:
  assumes "MemoryPool bsize bcount operator_new h0 = Inr p" "arena_ok p"
  shows "is_chain (heap p) (free_list p) (block_addrs p)"
proof -
  let ?p0 = "\<lparr>memory_start = memory_start p, block_size = (if bsize < 8 then 8 else bsize),
            block_count = bcount, free_list = 0, allocations = 0, deallocations = 0,
            current_usage = 0, heap = h0\<rparr>"
  note m = MemoryPool_Inr [OF assms(1)]
  have "arena_ok ?p0" using assms(2) by (simp add: arena_ok_def m(4,5))
  then have "is_chain (heap (init_free_list ?p0)) (free_list (init_free_list ?p0)) (block_addrs ?p0)"
    by (rule init_free_list_chain)
  moreover have "block_addrs ?p0 = block_addrs p"
    by (simp add: block_addrs_def block_addr_def m(4,5))
  ultimately show ?thesis using m(1) by simp
qed

lemma fresh_pool_inv:
  assumes "MemoryPool bsize bcount operator_new h0 = Inr p" "arena_ok p"
  shows "pool_inv p []"
proof -
  have "free_list_partition p (set [])"
    unfolding free_list_partition_def
  proof (intro exI conjI)
    show "is_chain (heap p) (free_list p) (block_addrs p)" using assms by (rule fresh_pool_chain)
    show "distinct (block_addrs p)" using assms(2) by (rule distinct_block_addrs)
  qed simp_all
  with assms(2) MemoryPool_Inr(8) [OF assms(1)] show ?thesis
    by (simp add: pool_inv_def)
qed

lemma allocate_n_chain:
  "is_chain (heap p) (free_list p) xs \<Longrightarrow> n \<le> length xs \<Longrightarrow> fst (allocate_n n p) = take n xs"
proof (induction n arbitrary: p xs)
  case 0
  then show ?case by simp
next
  case (Suc n)
  then obtain x xs' where xs: "xs = x # xs'" by (cases xs) auto
  with Suc.prems have f: "free_list p = x" "x \<noteq> 0"
    and ch: "is_chain (heap p) (load_next (heap p) x) xs'" and n: "n \<le> length xs'"
    by auto
  let ?p' = "p\<lparr>free_list := load_next (heap p) x,
               allocations := allocations p + 1,
               current_usage := current_usage p + 1\<rparr>"
  have a: "allocate p = (x, [], ?p')" using f by (simp add: allocate_def Let_def)
  have "fst (allocate_n n ?p') = take n xs'"
    using ch n by (intro Suc.IH) simp_all
  then show ?case by (auto simp: a xs split: prod.splits)
qed

section \<open>Evaluation on the concrete objects\<close>

lemma LRUCache_3: "LRUCache 3 = Inr test_cache"
  by (simp add: LRUCache_def test_cache_def)

lemma MemoryPool_small: "MemoryPool 8 2 (\<lambda>n. Some 4096) (\<lambda>a. 0) = Inr small_pool"
  by (simp add: MemoryPool_def init_free_list_def sizeof_FreeBlock_def init_loop_simps
      small_pool_def)

lemma arena_ok_small: "arena_ok small_pool"
  by (simp add: arena_ok_def sizeof_FreeBlock_def small_pool_def)

lemma lru_inv_filled: "lru_inv filled_cache"
  unfolding filled_cache_def
  by (intro lru_inv_put lru_inv_LRUCache [OF LRUCache_3])

lemma unat_max_size_t: "unat (- 1 :: size_t) = 18446744073709551615"
  by (simp add: unsigned_minus_1_eq_mask mask_eq_exp_minus_1)

lemmas pool_eval =
  allocate_def deallocate_def is_from_pool_def Let_def load_store_same load_store_other apart_def

lemmas ctor_eval = MemoryPool_def init_free_list_def sizeof_FreeBlock_def init_loop_simps

lemmas cache_eval =
  LRUCache_def put_def get_def evict_lru_def splice_front_def assign_value_def deref_def
  entries_def cache_size_def Let_def

lemma block_count_step: "block_count (fst (pool_step s x)) = block_count (fst s)"
  by (cases s; cases x) (auto simp: allocate_def deallocate_def Let_def split: prod.splits)

lemma block_count_run: "block_count (fst (run_pool s ops)) = block_count (fst s)"
  by (induction ops arbitrary: s) (simp_all add: block_count_step)

lemma upt_two: "[0..<2] = [0, 1 :: nat]"
  by (simp add: numeral_2_eq_2)

lemma lru_inv_clear: "lru_inv c \<Longrightarrow> lru_inv (clear c)"
  by (simp add: lru_inv_def clear_def index_of_def)

lemma lru_inv_reset_stats: "lru_inv c \<Longrightarrow> lru_inv (reset_stats c)"
  by (simp add: lru_inv_def reset_stats_def)



section \<open>The claims\<close>

text \<open>
  Claim C1 (the scenario of \<open>test_lru_cache\<close>). In a cache of capacity 3, after
  \<open>put(1, "Alice")\<close>, \<open>put(2, "Bob")\<close>, \<open>put(3, "Charlie")\<close>, the call \<open>get(2)\<close>
  returns "Bob" and moves key 2 to the front; \<open>put(4, "Diana")\<close> then evicts exactly
  one entry, the one of key 1, and keeps keys 2, 3 and 4; after it \<open>get(1)\<close> returns
  nothing and \<open>get(4)\<close> returns "Diana".
\<close>

theorem lru_scenario:
  "LRUCache 3 = Inr test_cache \<and>
   filled_cache = put (put (put test_cache 1 ''Alice'') 2 ''Bob'') 3 ''Charlie'' \<and>
   (let r2 = get filled_cache 2;
        c5 = put (snd r2) 4 ''Diana'';
        r1 = get c5 1;
        r4 = get (snd r1) 4
    in entries filled_cache = [(3, ''Charlie''), (2, ''Bob''), (1, ''Alice'')] \<and>
       fst r2 = Some ''Bob'' \<and>
       entries (snd r2) = [(2, ''Bob''), (3, ''Charlie''), (1, ''Alice'')] \<and>
       evictions (snd r2) = 0 \<and>
       evictions c5 = 1 \<and>
       entries c5 = [(4, ''Diana''), (2, ''Bob''), (3, ''Charlie'')] \<and>
       map (\<lambda>k. cache_map c5 k = None) [1, 2, 3, 4] = [True, False, False, False] \<and>
       fst r1 = None \<and>
       fst r4 = Some ''Diana'')"
  by (simp add: LRUCache_3) (simp add: filled_cache_def test_cache_def cache_eval)

text \<open>
  Claim C2, as amended. From a freshly constructed cache, after any sequence of \<open>put\<close>
  calls the size of the cache is at most the capacity given to the constructor. From a
  freshly constructed pool whose arena lies in the address space, after any sequence of
  \<open>allocate\<close> and \<open>deallocate\<close> calls in which every address given to
  \<open>deallocate\<close> is null, outside the arena, or a block that the caller holds at
  that moment, the usage is at most the block count. Every prefix of such a sequence is
  one too, so the bound holds after each call.
\<close>

theorem capacity_invariant_amended:
  "(LRUCache cap = Inr c0 \<longrightarrow> cache_size (put_all c0 kvs) \<le> unat cap) \<and>
   (MemoryPool bsize bcount operator_new h0 = Inr p0 \<and> arena_ok p0 \<and>
    disciplined (p0, []) ops \<longrightarrow>
      unat (current_usage (fst (run_pool (p0, []) ops))) \<le> unat bcount)"
proof (intro conjI impI)
  assume "LRUCache cap = Inr c0"
  then show "cache_size (put_all c0 kvs) \<le> unat cap" by (rule put_all_size_le)
next
  assume a: "MemoryPool bsize bcount operator_new h0 = Inr p0 \<and> arena_ok p0 \<and>
    disciplined (p0, []) ops"
  then have m: "MemoryPool bsize bcount operator_new h0 = Inr p0" and ok: "arena_ok p0"
    and d: "disciplined (p0, []) ops"
    by simp_all
  from m ok have "pool_inv (fst (p0, [])) (snd (p0, []))" by (simp add: fresh_pool_inv)
  from this d have i: "pool_inv (fst (run_pool (p0, []) ops)) (snd (run_pool (p0, []) ops))"
    by (rule pool_inv_run)
  have "block_count (fst (run_pool (p0, []) ops)) = bcount"
    using m by (simp add: block_count_run MemoryPool_Inr(5))
  with pool_inv_usage [OF i] show "unat (current_usage (fst (run_pool (p0, []) ops))) \<le> unat bcount"
    by simp
qed

text \<open>
  An instance: four \<open>put\<close> calls on the cache of capacity 3, and on the pool of two
  blocks a sequence that exhausts the pool, returns a block, and passes \<open>deallocate\<close>
  the null address and the address one past the arena.
\<close>

theorem capacity_invariant_amended_witness:
  "LRUCache 3 = Inr test_cache \<and>
   cache_size (put_all test_cache [(1, ''Alice''), (2, ''Bob''), (3, ''Charlie''), (4, ''Diana'')])
     \<le> unat (3 :: size_t) \<and>
   MemoryPool 8 2 (\<lambda>n. Some 4096) (\<lambda>a. 0) = Inr small_pool \<and>
   arena_ok small_pool \<and>
   disciplined (small_pool, [])
     [Allocate, Allocate, Deallocate 4096, Allocate, Allocate, Deallocate 0, Deallocate 4112] \<and>
   unat (current_usage (fst (run_pool (small_pool, [])
     [Allocate, Allocate, Deallocate 4096, Allocate, Allocate, Deallocate 0, Deallocate 4112])))
     \<le> unat (2 :: size_t)"
proof -
  let ?ops = "[Allocate, Allocate, Deallocate 4096, Allocate, Allocate, Deallocate 0, Deallocate 4112]"
  have d: "disciplined (small_pool, []) ?ops" by (simp add: pool_eval small_pool_def)
  note t = capacity_invariant_amended [of 3 test_cache
      "[(1, ''Alice''), (2, ''Bob''), (3, ''Charlie''), (4, ''Diana'')]" 8 2
      "\<lambda>n. Some 4096" "\<lambda>a. 0" small_pool ?ops]
  note r1 = t [THEN conjunct1, THEN mp, OF LRUCache_3]
  note r2 = t [THEN conjunct2, THEN mp, OF conjI [OF MemoryPool_small conjI [OF arena_ok_small d]]]
  from LRUCache_3 r1 MemoryPool_small arena_ok_small d r2 show ?thesis by (intro conjI)
qed

text \<open>
  The claim as stated, for every sequence of calls, fails: \<open>deallocate\<close> does not
  detect an address that is deallocated twice. On the pool of two blocks, one
  \<open>allocate\<close> followed by two \<open>deallocate\<close> calls of the block it returned
  leaves the usage at \<open>0 - 1\<close>, which is \<open>2^64 - 1\<close> in \<open>size_t\<close>, above the
  block count 2.
\<close>

theorem pool_usage_exceeds_on_double_free:
  "MemoryPool 8 2 (\<lambda>n. Some 4096) (\<lambda>a. 0) = Inr small_pool \<and>
   fst (allocate small_pool) = 4096 \<and>
   current_usage (fst (run_pool (small_pool, []) [Allocate, Deallocate 4096, Deallocate 4096]))
     = 18446744073709551615 \<and>
   block_count (fst (run_pool (small_pool, []) [Allocate, Deallocate 4096, Deallocate 4096])) = 2 \<and>
   \<not> unat (current_usage (fst (run_pool (small_pool, [])
          [Allocate, Deallocate 4096, Deallocate 4096])))
       \<le> unat (block_count (fst (run_pool (small_pool, [])
          [Allocate, Deallocate 4096, Deallocate 4096])))"
  by (simp add: MemoryPool_small) (simp add: pool_eval small_pool_def unat_max_size_t)

text \<open>
  Claim C3, as amended. Constructing the cache with capacity 0 fails with
  \<open>std::invalid_argument\<close> and yields no object. The constructor of the pool does not
  reject a zero. With block count 0, whatever the block size, it succeeds whenever
  \<open>::operator new\<close> returns an address for the request of 0 bytes: the pool has an
  empty free list, the memory is as it was, and \<open>allocate\<close> reports exhaustion. With
  block size 0 the block size is raised to 8, it is never 0 after the correction, and
  construction succeeds whenever \<open>::operator new\<close> returns an address and the arena
  of \<open>8 * block_count\<close> bytes lies in the address space: the free list then links
  all the blocks.
\<close>

theorem zero_configuration_amended:
  "LRUCache 0 = (Inl InvalidArgument :: error + ('k, 'v) lru_cache) \<and>
   (operator_new 0 = Some start \<and> start \<noteq> 0 \<longrightarrow>
      MemoryPool bsize 0 operator_new h0 =
        Inr \<lparr>memory_start = start, block_size = (if bsize < 8 then 8 else bsize),
             block_count = 0, free_list = 0, allocations = 0, deallocations = 0,
             current_usage = 0, heap = h0\<rparr> \<and>
      allocate \<lparr>memory_start = start, block_size = (if bsize < 8 then 8 else bsize),
             block_count = 0, free_list = 0, allocations = 0, deallocations = 0,
             current_usage = 0, heap = h0\<rparr> =
        (0, [PoolExhausted],
         \<lparr>memory_start = start, block_size = (if bsize < 8 then 8 else bsize),
             block_count = 0, free_list = 0, allocations = 0, deallocations = 0,
             current_usage = 0, heap = h0\<rparr>)) \<and>
   (operator_new (8 * bcount) = Some start \<and> start \<noteq> 0 \<and>
    unat start + 8 * unat bcount < 2 ^ 64 \<longrightarrow>
      (\<exists>p. MemoryPool 0 bcount operator_new h0 = Inr p \<and>
           memory_start p = start \<and> block_size p = 8 \<and> block_count p = bcount \<and>
           current_usage p = 0 \<and> is_chain (heap p) (free_list p) (block_addrs p)))"
proof (intro conjI impI)
  show "LRUCache 0 = (Inl InvalidArgument :: error + ('k, 'v) lru_cache)"
    by (simp add: LRUCache_def)
next
  assume a: "operator_new 0 = Some start \<and> start \<noteq> 0"
  let ?p0 = "\<lparr>memory_start = start, block_size = (if bsize < 8 then 8 else bsize),
             block_count = 0, free_list = 0, allocations = 0, deallocations = 0,
             current_usage = 0, heap = h0\<rparr>"
  have "init_free_list ?p0 = ?p0"
    by (simp add: init_free_list_def init_loop_simps)
  with a show "MemoryPool bsize 0 operator_new h0 = Inr ?p0"
    by (cases "bsize < 8") (simp_all add: MemoryPool_def sizeof_FreeBlock_def Let_def)
  show "allocate ?p0 = (0, [PoolExhausted], ?p0)"
    by (simp add: allocate_def)
next
  assume a: "operator_new (8 * bcount) = Some start \<and> start \<noteq> 0 \<and>
    unat start + 8 * unat bcount < 2 ^ 64"
  let ?p0 = "\<lparr>memory_start = start, block_size = 8,
             block_count = bcount, free_list = 0, allocations = 0, deallocations = 0,
             current_usage = 0, heap = h0\<rparr>"
  have m: "MemoryPool 0 bcount operator_new h0 = Inr (init_free_list ?p0)"
    using a by (simp add: MemoryPool_def sizeof_FreeBlock_def Let_def)
  note f = MemoryPool_Inr [OF m]
  from f(2) a have s: "memory_start (init_free_list ?p0) = start" by simp
  have bs: "block_size (init_free_list ?p0) = 8" using f(4) by simp
  have "arena_ok (init_free_list ?p0)"
    using a by (simp add: arena_ok_def sizeof_FreeBlock_def s bs f(5))
  with m have "is_chain (heap (init_free_list ?p0)) (free_list (init_free_list ?p0))
      (block_addrs (init_free_list ?p0))"
    by (rule fresh_pool_chain)
  with m s bs f(5,8) show "\<exists>p. MemoryPool 0 bcount operator_new h0 = Inr p \<and>
           memory_start p = start \<and> block_size p = 8 \<and> block_count p = bcount \<and>
           current_usage p = 0 \<and> is_chain (heap p) (free_list p) (block_addrs p)"
    by blast
qed

text \<open>
  An instance: \<open>MemoryPool(64, 0)\<close> and \<open>MemoryPool(0, 2)\<close>, with \<open>::operator new\<close>
  returning address 4096.
\<close>

theorem zero_configuration_amended_witness:
  "LRUCache 0 = (Inl InvalidArgument :: error + (int, string) lru_cache) \<and>
   MemoryPool 64 0 (\<lambda>n. Some 4096) (\<lambda>a. 0) =
     Inr \<lparr>memory_start = 4096, block_size = 64, block_count = 0, free_list = 0,
          allocations = 0, deallocations = 0, current_usage = 0, heap = \<lambda>a. 0\<rparr> \<and>
   allocate \<lparr>memory_start = 4096, block_size = 64, block_count = 0, free_list = 0,
          allocations = 0, deallocations = 0, current_usage = 0, heap = \<lambda>a. 0\<rparr> =
     (0, [PoolExhausted],
      \<lparr>memory_start = 4096, block_size = 64, block_count = 0, free_list = 0,
          allocations = 0, deallocations = 0, current_usage = 0, heap = \<lambda>a. 0\<rparr>) \<and>
   unat (4096 :: addr) + 8 * unat (2 :: size_t) < 2 ^ 64 \<and>
   (\<exists>p. MemoryPool 0 2 (\<lambda>n. Some 4096) (\<lambda>a. 0) = Inr p \<and>
        memory_start p = 4096 \<and> block_size p = 8 \<and> block_count p = 2 \<and>
        current_usage p = 0 \<and> is_chain (heap p) (free_list p) (block_addrs p))"
proof -
  note t = zero_configuration_amended [of "\<lambda>n. Some 4096" 4096 64 "\<lambda>a. 0" 2,
      where ?'k = int and ?'v = string]
  have h1: "(\<lambda>n :: size_t. Some (4096 :: addr)) 0 = Some 4096 \<and> (4096 :: addr) \<noteq> 0" by simp
  have fit: "unat (4096 :: addr) + 8 * unat (2 :: size_t) < 2 ^ 64" by simp
  have h2: "(\<lambda>n :: size_t. Some (4096 :: addr)) (8 * 2) = Some 4096 \<and> (4096 :: addr) \<noteq> 0 \<and>
    unat (4096 :: addr) + 8 * unat (2 :: size_t) < 2 ^ 64" by simp
  note r0 = t [THEN conjunct1]
  note r1 = t [THEN conjunct2, THEN conjunct1, THEN mp, OF h1]
  note r2 = t [THEN conjunct2, THEN conjunct2, THEN mp, OF h2]
  from r0 r1 [THEN conjunct1] r1 [THEN conjunct2] fit r2 show ?thesis
    by simp
qed

text \<open>
  The claim as stated fails: \<open>MemoryPool(64, 0)\<close> constructs a pool, and so does
  \<open>MemoryPool(0, 1)\<close>, whose block size is 8.
\<close>

theorem zero_block_count_constructs:
  "MemoryPool 64 0 (\<lambda>n. Some 4096) (\<lambda>a. 0) =
     Inr \<lparr>memory_start = 4096, block_size = 64, block_count = 0, free_list = 0,
          allocations = 0, deallocations = 0, current_usage = 0, heap = \<lambda>a. 0\<rparr> \<and>
   MemoryPool 0 1 (\<lambda>n. Some 4096) (\<lambda>a. 0) =
     Inr \<lparr>memory_start = 4096, block_size = 8, block_count = 1, free_list = 4096,
          allocations = 0, deallocations = 0, current_usage = 0,
          heap = store_next (\<lambda>a. 0) 4096 0\<rparr>"
  by (simp add: ctor_eval)

text \<open>
  Claim C4. \<open>allocate\<close> on a pool whose free list is empty returns the null pointer,
  writes the exhaustion message, and returns the pool as it was: usage, allocation
  count, free list and memory are unchanged.
\<close>

theorem allocate_exhausted:
  "free_list p = 0 \<Longrightarrow> allocate p = (0, [PoolExhausted], p)"
  by (simp add: allocate_def)

text \<open>An instance: the pool of two blocks after two calls of \<open>allocate\<close>.\<close>

theorem allocate_exhausted_witness:
  "fst (run_pool (small_pool, []) [Allocate, Allocate]) =
     small_pool\<lparr>free_list := 0, allocations := 2, current_usage := 2\<rparr> \<and>
   free_list (small_pool\<lparr>free_list := 0, allocations := 2, current_usage := 2\<rparr>) = 0 \<and>
   allocate (small_pool\<lparr>free_list := 0, allocations := 2, current_usage := 2\<rparr>) =
     (0, [PoolExhausted], small_pool\<lparr>free_list := 0, allocations := 2, current_usage := 2\<rparr>)"
proof -
  let ?q = "small_pool\<lparr>free_list := 0, allocations := 2, current_usage := 2\<rparr>"
  have r: "fst (run_pool (small_pool, []) [Allocate, Allocate]) = ?q"
    by (simp add: pool_eval small_pool_def)
  have f: "free_list ?q = 0" by simp
  from r f allocate_exhausted [OF f] show ?thesis by (intro conjI)
qed

text \<open>
  Claim C5. \<open>deallocate\<close> of the null pointer returns the pool as it was. For a pool
  whose arena lies in the address space, \<open>deallocate\<close> of any other address below
  \<open>memory_start\<close> or at or above \<open>memory_start + block_size * block_count\<close> writes
  the misuse message and returns the pool as it was: usage, deallocation count, free
  list and memory are unchanged, so the address is not linked into the free list.
\<close>

theorem deallocate_rejects:
  assumes "arena_ok p"
  shows "deallocate p 0 = ([], p) \<and>
    (a \<noteq> 0 \<and>
     (unat a < unat (memory_start p) \<or>
      unat (memory_start p) + unat (block_size p) * unat (block_count p) \<le> unat a) \<longrightarrow>
       deallocate p a = ([NotFromPool], p))"
proof (intro conjI impI)
  show "deallocate p 0 = ([], p)" by (simp add: deallocate_def)
next
  assume a: "a \<noteq> 0 \<and>
     (unat a < unat (memory_start p) \<or>
      unat (memory_start p) + unat (block_size p) * unat (block_count p) \<le> unat a)"
  note e = arena_okD(5) [OF assms]
  from a have "\<not> is_from_pool p a"
    unfolding is_from_pool_def Let_def word_le_nat_alt word_less_nat_alt e by auto
  with a show "deallocate p a = ([NotFromPool], p)" by (simp add: deallocate_def)
qed

text \<open>
  An instance: on the pool of two blocks at 4096, the null address, the address one
  past the arena and the address just below it.
\<close>

theorem deallocate_rejects_witness:
  "arena_ok small_pool \<and> deallocate small_pool 0 = ([], small_pool) \<and>
   unat (memory_start small_pool) + unat (block_size small_pool) * unat (block_count small_pool)
     \<le> unat (4112 :: addr) \<and>
   deallocate small_pool 4112 = ([NotFromPool], small_pool) \<and>
   unat (4095 :: addr) < unat (memory_start small_pool) \<and>
   deallocate small_pool 4095 = ([NotFromPool], small_pool)"
proof -
  have 1: "unat (memory_start small_pool) + unat (block_size small_pool) * unat (block_count small_pool)
     \<le> unat (4112 :: addr)"
    and 2: "unat (4095 :: addr) < unat (memory_start small_pool)"
    by (simp_all add: small_pool_def)
  note t1 = deallocate_rejects [OF arena_ok_small, of 4112]
  note t2 = deallocate_rejects [OF arena_ok_small, of 4095]
  from t1 1 have "deallocate small_pool 0 = ([], small_pool)"
    and "deallocate small_pool 4112 = ([NotFromPool], small_pool)" by simp_all
  moreover from t2 2 have "deallocate small_pool 4095 = ([NotFromPool], small_pool)" by simp
  ultimately show ?thesis using arena_ok_small 1 2 by (intro conjI)
qed

text \<open>
  Claim C6. In a cache that satisfies its representation invariant (every cache built
  by the constructor and the public operations does), \<open>get\<close> of a key in the index
  returns the value stored for the key, adds one to \<open>hits\<close>, moves the node of the
  key to the front of the list and changes nothing else; \<open>get\<close> of a key not in the
  index returns nothing, adds one to \<open>misses\<close> and changes nothing else.
\<close>

theorem get_hit_and_miss:
  assumes "lru_inv c"
  shows "(k \<in> dom (cache_map c) \<longrightarrow>
           (\<exists>it v. cache_map c k = Some it \<and> map_of (entries c) k = Some v \<and>
              get c k = (Some v, c\<lparr>hits := hits c + 1,
                                      cache_list := (it, k, v) # remove1 (it, k, v) (cache_list c)\<rparr>) \<and>
              entries (snd (get c k)) = (k, v) # filter (\<lambda>e. fst e \<noteq> k) (entries c))) \<and>
         (k \<notin> dom (cache_map c) \<longrightarrow> get c k = (None, c\<lparr>misses := misses c + 1\<rparr>))"
proof (intro conjI impI)
  assume "k \<in> dom (cache_map c)"
  then obtain it where it: "cache_map c k = Some it" by auto
  from get_hit [OF assms it] obtain v where v: "(it, k, v) \<in> set (cache_list c)"
    and g: "get c k = (Some v, c\<lparr>hits := hits c + 1,
                                  cache_list := (it, k, v) # remove1 (it, k, v) (cache_list c)\<rparr>)"
    by blast
  from assms have keys: "distinct (map (\<lambda>n. fst (snd n)) (cache_list c))"
    by (simp add: lru_inv_def)
  have "map_of (entries c) k = Some v"
    unfolding entries_def using keys v by (rule map_of_entries)
  moreover have "entries (snd (get c k)) = (k, v) # filter (\<lambda>e. fst e \<noteq> k) (entries c)"
    by (simp add: g entries_def entries_remove1 [OF keys v])
  ultimately show "\<exists>it v. cache_map c k = Some it \<and> map_of (entries c) k = Some v \<and>
              get c k = (Some v, c\<lparr>hits := hits c + 1,
                                      cache_list := (it, k, v) # remove1 (it, k, v) (cache_list c)\<rparr>) \<and>
              entries (snd (get c k)) = (k, v) # filter (\<lambda>e. fst e \<noteq> k) (entries c)"
    using it g by blast
next
  assume "k \<notin> dom (cache_map c)"
  then have "cache_map c k = None" by auto
  then show "get c k = (None, c\<lparr>misses := misses c + 1\<rparr>)" by (rule get_miss)
qed

text \<open>An instance: keys 2 (present) and 5 (absent) in the cache of the test.\<close>

theorem get_hit_and_miss_witness:
  "lru_inv filled_cache \<and>
   2 \<in> dom (cache_map filled_cache) \<and>
   fst (get filled_cache 2) = Some ''Bob'' \<and>
   hits (snd (get filled_cache 2)) = 1 \<and>
   entries (snd (get filled_cache 2)) = [(2, ''Bob''), (3, ''Charlie''), (1, ''Alice'')] \<and>
   5 \<notin> dom (cache_map filled_cache) \<and>
   get filled_cache 5 = (None, filled_cache\<lparr>misses := 1\<rparr>)"
proof -
  have e: "entries filled_cache = [(3, ''Charlie''), (2, ''Bob''), (1, ''Alice'')]"
    and h: "hits filled_cache = 0" "misses filled_cache = 0"
    and d2: "2 \<in> dom (cache_map filled_cache)" and d5: "5 \<notin> dom (cache_map filled_cache)"
    by (simp_all add: filled_cache_def test_cache_def cache_eval)
  note t2 = get_hit_and_miss [OF lru_inv_filled, of 2, THEN conjunct1, THEN mp, OF d2]
  note t5 = get_hit_and_miss [OF lru_inv_filled, of 5, THEN conjunct2, THEN mp, OF d5]
  from t2 e h have "fst (get filled_cache 2) = Some ''Bob''"
    and "hits (snd (get filled_cache 2)) = 1"
    and "entries (snd (get filled_cache 2)) = [(2, ''Bob''), (3, ''Charlie''), (1, ''Alice'')]"
    by auto
  moreover from t5 h have "get filled_cache 5 = (None, filled_cache\<lparr>misses := 1\<rparr>)" by simp
  ultimately show ?thesis using lru_inv_filled d2 d5 by (intro conjI)
qed

text \<open>
  Claim C7. In a cache that satisfies its representation invariant, \<open>put\<close> of a key
  in the index puts the key with the new value at the front of the list and removes
  its old entry; the size, the three counters, the index and the capacity are
  unchanged, whatever the size of the cache.
\<close>

theorem put_existing_key:
  assumes "lru_inv c" "k \<in> dom (cache_map c)"
  shows "entries (put c k v) = (k, v) # filter (\<lambda>e. fst e \<noteq> k) (entries c) \<and>
         cache_size (put c k v) = cache_size c \<and>
         hits (put c k v) = hits c \<and> misses (put c k v) = misses c \<and>
         evictions (put c k v) = evictions c \<and>
         cache_map (put c k v) = cache_map c \<and> capacity (put c k v) = capacity c"
proof -
  from assms(2) obtain it where it: "cache_map c k = Some it" by auto
  from put_existing [OF assms(1) it, of v] obtain v0
    where v0: "(it, k, v0) \<in> set (cache_list c)"
      and p: "put c k v = c\<lparr>cache_list := (it, k, v) # remove1 (it, k, v0) (cache_list c)\<rparr>"
    by blast
  from assms(1) have ids: "distinct (map fst (cache_list c))"
    and keys: "distinct (map (\<lambda>n. fst (snd n)) (cache_list c))"
    by (simp_all add: lru_inv_def)
  have "entries (put c k v) = (k, v) # filter (\<lambda>e. fst e \<noteq> k) (entries c)"
    by (simp add: p entries_def entries_remove1 [OF keys v0])
  moreover have "cache_size (put c k v) = cache_size c"
    using promote_list(4) [OF ids keys v0, of v] by (simp add: p cache_size_def)
  ultimately show ?thesis by (simp add: p)
qed

text \<open>An instance: the cache of the test, which is full, and key 1.\<close>

theorem put_existing_key_witness:
  "lru_inv filled_cache \<and> 1 \<in> dom (cache_map filled_cache) \<and>
   cache_size filled_cache = unat (capacity filled_cache) \<and>
   entries filled_cache = [(3, ''Charlie''), (2, ''Bob''), (1, ''Alice'')] \<and>
   entries (put filled_cache 1 ''Alicia'') = [(1, ''Alicia''), (3, ''Charlie''), (2, ''Bob'')] \<and>
   cache_size (put filled_cache 1 ''Alicia'') = 3 \<and>
   hits (put filled_cache 1 ''Alicia'') = 0 \<and>
   misses (put filled_cache 1 ''Alicia'') = 0 \<and>
   evictions (put filled_cache 1 ''Alicia'') = 0"
proof -
  have e: "entries filled_cache = [(3, ''Charlie''), (2, ''Bob''), (1, ''Alice'')]"
    and h: "hits filled_cache = 0" "misses filled_cache = 0" "evictions filled_cache = 0"
      "cache_size filled_cache = 3" "cache_size filled_cache = unat (capacity filled_cache)"
    and d: "1 \<in> dom (cache_map filled_cache)"
    by (simp_all add: filled_cache_def test_cache_def cache_eval)
  from put_existing_key [OF lru_inv_filled d, of "''Alicia''"] e h
  have "entries (put filled_cache 1 ''Alicia'') = [(1, ''Alicia''), (3, ''Charlie''), (2, ''Bob'')]"
    and "cache_size (put filled_cache 1 ''Alicia'') = 3"
    and "hits (put filled_cache 1 ''Alicia'') = 0"
    and "misses (put filled_cache 1 ''Alicia'') = 0"
    and "evictions (put filled_cache 1 ''Alicia'') = 0"
    by simp_all
  with lru_inv_filled d h(5) e show ?thesis by (intro conjI)
qed

text \<open>
  Claim C8. After construction, for an arena that lies in the address space, the free
  list is the list of all \<open>block_count\<close> block addresses in arena order, these
  addresses increase, and the first \<open>n\<close> calls of \<open>allocate\<close>, for every \<open>n\<close> up to
  the block count, return \<open>memory_start\<close>, \<open>memory_start + block_size\<close>, and so on.
\<close>

theorem fresh_pool_allocation_order:
  assumes "MemoryPool bsize bcount operator_new h0 = Inr p" "arena_ok p"
  shows "is_chain (heap p) (free_list p) (block_addrs p) \<and>
         length (block_addrs p) = unat bcount \<and>
         (\<forall>n \<le> unat bcount. fst (allocate_n n p) =
            map (\<lambda>i. memory_start p + of_nat i * block_size p) [0..<n]) \<and>
         (\<forall>i j. i < j \<and> j < unat bcount \<longrightarrow>
            memory_start p + of_nat i * block_size p < memory_start p + of_nat j * block_size p)"
proof (intro conjI allI impI)
  show ch: "is_chain (heap p) (free_list p) (block_addrs p)"
    using assms by (rule fresh_pool_chain)
  show len: "length (block_addrs p) = unat bcount"
    by (simp add: block_addrs_def MemoryPool_Inr(5) [OF assms(1)])
  fix n assume n: "n \<le> unat bcount"
  with len have "fst (allocate_n n p) = take n (block_addrs p)"
    by (intro allocate_n_chain [OF ch]) simp
  also have "\<dots> = map (block_addr p) [0..<n]"
    using n len by (simp add: block_addrs_def take_map min_def)
  finally show "fst (allocate_n n p) = map (\<lambda>i. memory_start p + of_nat i * block_size p) [0..<n]"
    by (simp add: block_addr_def)
next
  fix i j assume ij: "i < j \<and> j < unat bcount"
  have bc: "block_count p = bcount" by (rule MemoryPool_Inr(5) [OF assms(1)])
  from ij have i: "i < unat (block_count p)" and j: "j < unat (block_count p)"
    by (simp_all add: bc)
  from ij have "i * unat (block_size p) + 8 \<le> j * unat (block_size p)"
    by (intro block_gap arena_okD(2) [OF assms(2)]) simp
  then have "unat (memory_start p) + i * unat (block_size p)
      < unat (memory_start p) + j * unat (block_size p)"
    by linarith
  then have "unat (block_addr p i) < unat (block_addr p j)"
    by (simp only: unat_block_addr [OF assms(2) i] unat_block_addr [OF assms(2) j])
  then show "memory_start p + of_nat i * block_size p < memory_start p + of_nat j * block_size p"
    by (simp add: word_less_nat_alt block_addr_def)
qed

text \<open>An instance: the pool of two blocks of 8 bytes at 4096.\<close>

theorem fresh_pool_allocation_order_witness:
  "MemoryPool 8 2 (\<lambda>n. Some 4096) (\<lambda>a. 0) = Inr small_pool \<and> arena_ok small_pool \<and>
   memory_start small_pool = 4096 \<and> block_size small_pool = 8 \<and>
   fst (allocate_n 2 small_pool) = [4096, 4104]"
proof -
  note t = fresh_pool_allocation_order [OF MemoryPool_small arena_ok_small]
  have f: "memory_start small_pool = 4096" "block_size small_pool = 8"
    by (simp_all add: small_pool_def)
  have "(2 :: nat) \<le> unat (2 :: size_t)" by simp
  with t have "fst (allocate_n 2 small_pool) =
      map (\<lambda>i. memory_start small_pool + of_nat i * block_size small_pool) [0..<2]"
    by blast
  then have "fst (allocate_n 2 small_pool) = [4096, 4104]"
    by (simp add: f upt_two)
  with MemoryPool_small arena_ok_small f show ?thesis by (intro conjI)
qed




text \<open>
  Claim C10. \<open>deallocate\<close> checks the byte range of the arena only. For a pool whose
  arena lies in the address space, every address inside the arena that is not a block
  address is accepted: it becomes the head of the free list, its \<open>next\<close> field is
  set to the old head, the deallocation count goes up by one and the usage down by
  one; after that the free list holds an address that is not a block address, so the
  partition invariant holds for no set of outstanding addresses.
\<close>

theorem deallocate_interior_address:
  assumes "arena_ok p"
    and "unat (memory_start p) \<le> unat a"
    and "unat a < unat (memory_start p) + unat (block_size p) * unat (block_count p)"
    and "a \<notin> set (block_addrs p)"
  shows "deallocate p a =
           ([], p\<lparr>heap := store_next (heap p) a (free_list p), free_list := a,
                  deallocations := deallocations p + 1,
                  current_usage := current_usage p - 1\<rparr>) \<and>
         load_next (heap (snd (deallocate p a))) a = free_list p \<and>
         (\<forall>out. \<not> free_list_partition (snd (deallocate p a)) out)"
proof -
  let ?p' = "p\<lparr>heap := store_next (heap p) a (free_list p), free_list := a,
                  deallocations := deallocations p + 1,
                  current_usage := current_usage p - 1\<rparr>"
  note d = arena_okD [OF assms(1)]
  from d(1) assms(2) have "unat a \<noteq> 0" by simp
  then have nz: "a \<noteq> 0" by auto
  have "is_from_pool p a"
    unfolding is_from_pool_def Let_def word_le_nat_alt word_less_nat_alt d(5)
    using assms(2,3) by simp
  with nz have dp: "deallocate p a = ([], ?p')" by (rule deallocate_accepted)
  have "\<not> free_list_partition ?p' out" for out
  proof
    assume "free_list_partition ?p' out"
    then obtain fl where ch: "is_chain (heap ?p') (free_list ?p') fl"
      and cov: "set fl \<union> out = set (block_addrs ?p')"
      by (auto simp: free_list_partition_def)
    from ch nz obtain fl' where "fl = a # fl'" by (cases fl) auto
    with cov have "a \<in> set (block_addrs ?p')" by auto
    with assms(4) show False by simp
  qed
  with dp show ?thesis by (simp add: load_store_same)
qed

text \<open>An instance: address 4100, inside the first block of the pool at 4096.\<close>

theorem deallocate_interior_address_witness:
  "arena_ok small_pool \<and>
   unat (memory_start small_pool) \<le> unat (4100 :: addr) \<and>
   unat (4100 :: addr) <
     unat (memory_start small_pool) + unat (block_size small_pool) * unat (block_count small_pool) \<and>
   block_addrs small_pool = [4096, 4104] \<and>
   free_list small_pool = 4096 \<and>
   deallocate small_pool 4100 =
     ([], small_pool\<lparr>heap := store_next (heap small_pool) 4100 4096, free_list := 4100,
                     deallocations := 1, current_usage := 18446744073709551615\<rparr>)"
proof -
  have 1: "unat (memory_start small_pool) \<le> unat (4100 :: addr)"
    and 2: "unat (4100 :: addr) <
     unat (memory_start small_pool) + unat (block_size small_pool) * unat (block_count small_pool)"
    and b: "block_addrs small_pool = [4096, 4104]"
    and f: "free_list small_pool = 4096" "deallocations small_pool = 0"
      "current_usage small_pool = 0"
    by (simp_all add: small_pool_def block_addrs_def block_addr_def upt_two)
  from b have 3: "4100 \<notin> set (block_addrs small_pool)" by simp
  from deallocate_interior_address [OF arena_ok_small 1 2 3] f
  have "deallocate small_pool 4100 =
     ([], small_pool\<lparr>heap := store_next (heap small_pool) 4100 4096, free_list := 4100,
                     deallocations := 1, current_usage := 18446744073709551615\<rparr>)"
    by simp
  with arena_ok_small 1 2 b f(1) show ?thesis by (intro conjI)
qed

end
